theory Spec2Isabelle
  imports Main "HOL-Library.Word" "HOL-Library.AList"
begin

section \<open>The page frame (page.h, page.cpp)\<close>

text \<open>
  A \<open>Page\<close> owns a buffer of \<open>page_size\<close> bytes and its metadata (the members are named
  as in the source, without the trailing underscore, which record updates do not admit). The pin count is a
  \<open>std::atomic<int>\<close>: a 32-bit word read as two's complement, whose \<open>fetch_add\<close> and
  \<open>fetch_sub\<close> wrap around. The latch and the flush callback (never installed by the
  pool) carry no data and are left out; every member function is taken as one atomic step.
\<close>

type_synonym byte = "8 word"
type_synonym pageno = "32 word"

datatype error = InvalidArgument | OpenFailed | NullDeref

record Page =
  page_id :: pageno
  page_size :: nat
  data :: "byte list"
  pin_count :: "32 word"
  dirty :: bool
  loaded :: bool
  lsn :: "64 word"

text \<open>The constructor: a zeroed buffer, nothing loaded, nothing pinned.\<close>

definition Page_new :: "pageno \<Rightarrow> nat \<Rightarrow> Page" where
  "Page_new pid psz =
     \<lparr>page_id = pid, page_size = psz, data = replicate psz 0, pin_count = 0,
      dirty = False, loaded = False, lsn = 0\<rparr>"

definition pin :: "Page \<Rightarrow> Page" where
  "pin p = p\<lparr>pin_count := pin_count p + 1\<rparr>"

text \<open>
  \<open>unpin\<close>: \<open>fetch_sub(1)\<close> stores the decremented value and yields the previous one;
  a previous value \<open>\<le> 0\<close> makes the function store 0 and return 0.
\<close>

definition unpin :: "Page \<Rightarrow> Page \<times> int" where
  "unpin p =
     (let prev = pin_count p;
          p1 = p\<lparr>pin_count := prev - 1\<rparr>
      in if sint prev \<le> 0 then (p1\<lparr>pin_count := 0\<rparr>, 0)
         else (p1, sint prev - 1))"

text \<open>
  \<open>memcpy(dst + doff, src, n)\<close> on buffers held as lists. The C call requires \<open>n\<close> bytes
  on both sides; the callers below establish it from the buffer lengths.
\<close>

definition memcpy :: "byte list \<Rightarrow> nat \<Rightarrow> byte list \<Rightarrow> nat \<Rightarrow> byte list" where
  "memcpy dst doff src n = take doff dst @ take n src @ drop (doff + n) dst"

text \<open>
  \<open>ReadAt\<close> and \<open>WriteAt\<close>. The caller's pointer is \<open>None\<close> for \<open>nullptr\<close>, which makes both
  throw \<open>std::invalid_argument\<close> before anything else is looked at. \<open>ReadAt\<close> is \<open>const\<close>:
  it returns the count and the caller's buffer after the copy.
\<close>

definition ReadAt :: "Page \<Rightarrow> nat \<Rightarrow> byte list option \<Rightarrow> nat \<Rightarrow> error + (nat \<times> byte list)" where
  "ReadAt p offset out len =
     (case out of
        None \<Rightarrow> Inl InvalidArgument
      | Some buf \<Rightarrow>
          if offset \<ge> page_size p then Inr (0, buf)
          else if \<not> loaded p then Inr (0, buf)
          else let to_read = min len (page_size p - offset)
               in Inr (to_read, memcpy buf 0 (drop offset (data p)) to_read))"

definition WriteAt :: "Page \<Rightarrow> nat \<Rightarrow> byte list option \<Rightarrow> nat \<Rightarrow> error + (nat \<times> Page)" where
  "WriteAt p offset src len =
     (case src of
        None \<Rightarrow> Inl InvalidArgument
      | Some buf \<Rightarrow>
          if offset \<ge> page_size p then Inr (0, p)
          else let to_write = min len (page_size p - offset)
               in Inr (to_write,
                       p\<lparr>loaded := True,
                         data := memcpy (data p) offset buf to_write,
                         dirty := True\<rparr>))"

section \<open>The backing file\<close>

text \<open>
  The file behind the descriptor is its byte contents. Each \<open>pread\<close> or \<open>pwrite\<close> consumes
  one entry of a script of outcomes chosen by the environment: the call is served in full,
  served short (at most \<open>m + 1\<close> bytes for \<open>IoShort m\<close>), interrupted (\<open>EINTR\<close>) or fails
  for good (\<open>EIO\<close>). Once the script is used up every call is served in full, so a script
  stands for finitely many disturbances. A negative offset is refused with \<open>EINVAL\<close>.
\<close>

datatype errno = EINTR | EIO | EINVAL

datatype io_event = IoOk | IoShort nat | IoEINTR | IoFail

record os =
  contents :: "byte list"
  events :: "io_event list"

definition next_event :: "io_event list \<Rightarrow> io_event \<times> io_event list" where
  "next_event evs = (case evs of [] \<Rightarrow> (IoOk, []) | e # es \<Rightarrow> (e, es))"

fun xfer :: "io_event \<Rightarrow> nat \<Rightarrow> nat" where
  "xfer IoOk n = n"
| "xfer (IoShort m) n = min n (Suc m)"
| "xfer IoEINTR n = 0"
| "xfer IoFail n = 0"

text \<open>\<open>pread\<close> yields the bytes it read: fewer than asked near the end of the file, none at or past it.\<close>

definition pread :: "os \<Rightarrow> nat \<Rightarrow> int \<Rightarrow> (errno + byte list) \<times> os" where
  "pread w count off =
     (let (ev, evs) = next_event (events w);
          w' = w\<lparr>events := evs\<rparr>
      in if off < 0 then (Inl EINVAL, w')
         else if ev = IoEINTR then (Inl EINTR, w')
         else if ev = IoFail then (Inl EIO, w')
         else (Inr (take (xfer ev count) (drop (nat off) (contents w))), w'))"

text \<open>Writing past the end of the file extends it, the gap reading as zero bytes.\<close>

definition write_bytes :: "byte list \<Rightarrow> nat \<Rightarrow> byte list \<Rightarrow> byte list" where
  "write_bytes f off bs =
     (if bs = [] then f
      else let g = f @ replicate (off + length bs - length f) 0
           in take off g @ bs @ drop (off + length bs) g)"

definition pwrite :: "os \<Rightarrow> byte list \<Rightarrow> nat \<Rightarrow> int \<Rightarrow> (errno + nat) \<times> os" where
  "pwrite w src count off =
     (let (ev, evs) = next_event (events w);
          w' = w\<lparr>events := evs\<rparr>
      in if off < 0 then (Inl EINVAL, w')
         else if ev = IoEINTR then (Inl EINTR, w')
         else if ev = IoFail then (Inl EIO, w')
         else (Inr (xfer ev count),
               w'\<lparr>contents := write_bytes (contents w) (nat off) (take (xfer ev count) src)\<rparr>))"

text \<open>
  \<open>off_t\<close> is a signed 64-bit integer. The offsets are products of two values converted to
  \<open>off_t\<close>; a product outside the type is taken to wrap around in two's complement.
\<close>

definition to_off_t :: "int \<Rightarrow> int" where
  "to_off_t x = (x + 2 ^ 63) mod 2 ^ 64 - 2 ^ 63"

definition off_t_mul :: "nat \<Rightarrow> nat \<Rightarrow> int" where
  "off_t_mul a b = to_off_t (int a * int b)"

definition memset :: "byte list \<Rightarrow> nat \<Rightarrow> byte \<Rightarrow> nat \<Rightarrow> byte list" where
  "memset dst doff v n = take doff dst @ replicate n v @ drop (doff + n) dst"

text \<open>
  The read loop of \<open>load_from_fd\<close>: an interrupted read is retried, any other error ends
  the load with \<open>false\<close>, a read of 0 bytes is the end of the file and zero-fills the rest.
\<close>

function load_loop :: "os \<Rightarrow> int \<Rightarrow> nat \<Rightarrow> byte list \<Rightarrow> nat \<Rightarrow> bool \<times> byte list \<times> os" where
  "load_loop w file_offset psz buf ntotal =
     (if ntotal < psz then
        (case pread w (psz - ntotal) (file_offset + int ntotal) of
           (Inl e, w') \<Rightarrow>
             if e = EINTR then load_loop w' file_offset psz buf ntotal
             else (False, buf, w')
         | (Inr bs, w') \<Rightarrow>
             if length bs = 0 then (True, memset buf ntotal 0 (psz - ntotal), w')
             else load_loop w' file_offset psz (memcpy buf ntotal bs (length bs))
                    (ntotal + length bs))
      else (True, buf, w))"
  by pat_completeness auto
termination
  apply (relation "measures [\<lambda>(w, file_offset, psz, buf, ntotal). length (events w),
                            \<lambda>(w, file_offset, psz, buf, ntotal). psz - ntotal]")
    apply simp
   apply (auto simp: pread_def next_event_def Let_def split: list.splits if_splits)
  done

definition load_from_fd :: "Page \<Rightarrow> os \<Rightarrow> int \<Rightarrow> bool \<times> Page \<times> os" where
  "load_from_fd p w file_offset =
     (case load_loop w file_offset (page_size p) (data p) 0 of
        (ok, buf, w') \<Rightarrow>
          if ok then (True, p\<lparr>data := buf, loaded := True, dirty := False\<rparr>, w')
          else (False, p\<lparr>data := buf\<rparr>, w'))"

text \<open>The write loop of \<open>flush_to_fd\<close>, over the scratch copy \<open>tmp\<close> of the buffer.\<close>

function flush_loop :: "os \<Rightarrow> int \<Rightarrow> nat \<Rightarrow> byte list \<Rightarrow> nat \<Rightarrow> bool \<times> os" where
  "flush_loop w file_offset psz tmp ntotal =
     (if ntotal < psz then
        (case pwrite w (drop ntotal tmp) (psz - ntotal) (file_offset + int ntotal) of
           (Inl e, w') \<Rightarrow>
             if e = EINTR then flush_loop w' file_offset psz tmp ntotal
             else (False, w')
         | (Inr n, w') \<Rightarrow> flush_loop w' file_offset psz tmp (ntotal + n))
      else (True, w))"
  by pat_completeness auto
termination
  apply (relation "measures [\<lambda>(w, file_offset, psz, tmp, ntotal). length (events w),
                            \<lambda>(w, file_offset, psz, tmp, ntotal). psz - ntotal]")
    apply simp
   apply (auto simp: pwrite_def next_event_def Let_def split: list.splits if_splits)
  done

definition flush_to_fd :: "Page \<Rightarrow> os \<Rightarrow> int \<Rightarrow> bool \<times> Page \<times> os" where
  "flush_to_fd p w file_offset =
     (if \<not> loaded p then (False, p, w)
      else if \<not> dirty p then (True, p, w)
      else (case flush_loop w file_offset (page_size p) (data p) 0 of
              (ok, w') \<Rightarrow> if ok then (True, p\<lparr>dirty := False\<rparr>, w') else (False, p, w')))"

declare load_loop.simps [simp del] flush_loop.simps [simp del]

section \<open>The LRU pool (lru_buffer_pool.h and its implementation)\<close>

text \<open>
  The pool's members, with the file behind \<open>fd\<close> and what was written to \<open>std::cerr\<close>.
  \<open>page_table\<close>, a \<open>std::unordered_map\<close>, is an association list with one entry per key:
  \<open>find\<close> is \<open>map_of\<close>, \<open>operator[]=\<close> is \<open>AList.update\<close>, \<open>erase\<close> is \<open>AList.delete\<close> and
  \<open>size()\<close> is the length. A \<open>std::shared_ptr<Page>\<close> held by the table is the frame
  itself; a returned \<open>shared_ptr\<close> is \<open>None\<close> for \<open>nullptr\<close> and otherwise the frame stored
  under the requested page number, to which the caller's changes are written back.
  The two counters are \<open>std::atomic<size_t>\<close> and wrap at \<open>2 ^ 64\<close>. The member
  \<open>page_size_\<close> of the pool is \<open>pool_page_size\<close> here, \<open>page_size\<close> being the frame's.
\<close>

datatype log_msg = FailedToGetPage pageno | AllPinnedWarning

record LRUBufferPool =
  fd :: int
  capacity :: nat
  pool_page_size :: nat
  page_table :: "(pageno \<times> Page) list"
  lru_list :: "pageno list"
  hit_count :: nat
  miss_count :: nat
  disk :: os
  cerr :: "log_msg list"

text \<open>
  The constructor. \<open>page_no_info\<close> is the \<open>std::map\<close> given by its entries in iteration
  order, so that \<open>begin()\<close> is the head; \<open>open_result\<close> is what \<open>::open\<close> returned and \<open>w\<close>
  the file it opened (empty when \<open>O_CREAT\<close> created it).
\<close>

definition LRUBufferPool_new :: "os \<Rightarrow> int \<Rightarrow> (nat \<times> nat) list \<Rightarrow> error + LRUBufferPool" where
  "LRUBufferPool_new w open_result page_no_info =
     (let (psz, cap) = (case page_no_info of [] \<Rightarrow> (0, 0) | (s, c) # rest \<Rightarrow> (s, c))
      in if open_result < 0 then Inl OpenFailed
         else Inr \<lparr>fd = open_result, capacity = cap, pool_page_size = psz,
                   page_table = [], lru_list = [], hit_count = 0, miss_count = 0,
                   disk = w, cerr = []\<rparr>)"

definition MoveToFront :: "LRUBufferPool \<Rightarrow> pageno \<Rightarrow> LRUBufferPool" where
  "MoveToFront st no = st\<lparr>lru_list := no # removeAll no (lru_list st)\<rparr>"

text \<open>\<open>FlushPage\<close> returns its result, the frame after the flush and the pool.\<close>

definition FlushPage :: "LRUBufferPool \<Rightarrow> Page \<Rightarrow> bool \<times> Page \<times> LRUBufferPool" where
  "FlushPage st page =
     (if \<not> dirty page then (True, page, st)
      else let offset = off_t_mul (unat (page_id page)) (pool_page_size st)
           in (case flush_to_fd page (disk st) offset of
                 (ok, page', w') \<Rightarrow> (ok, page', st\<lparr>disk := w'\<rparr>)))"

text \<open>
  The walk of \<open>EvictIfNeeded\<close> from the back of \<open>lru_list\<close>: \<open>todo\<close> holds the nodes still to
  visit, the back of the list first, \<open>visited\<close> the nodes behind the iterator in list order.
  \<open>page_table_[pid]\<close> on a page number that is not a key yields a null pointer, whose
  dereference is the error \<open>NullDeref\<close>. The result of \<open>FlushPage\<close> is dropped.
\<close>

fun evict_walk :: "LRUBufferPool \<Rightarrow> pageno list \<Rightarrow> pageno list \<Rightarrow> error + LRUBufferPool" where
  "evict_walk st [] visited = Inr (st\<lparr>cerr := cerr st @ [AllPinnedWarning]\<rparr>)"
| "evict_walk st (pid # todo) visited =
     (case map_of (page_table st) pid of
        None \<Rightarrow> Inl NullDeref
      | Some page \<Rightarrow>
          if pin_count page = 0 then
            (case FlushPage st page of
               (ok, page', st1) \<Rightarrow>
                 Inr (st1\<lparr>page_table := AList.delete pid (page_table st1),
                          lru_list := rev todo @ visited\<rparr>))
          else evict_walk st todo (pid # visited))"

definition EvictIfNeeded :: "LRUBufferPool \<Rightarrow> error + LRUBufferPool" where
  "EvictIfNeeded st =
     (if length (page_table st) < capacity st then Inr st
      else evict_walk st (rev (lru_list st)) [])"

definition LoadPageFromDisk :: "LRUBufferPool \<Rightarrow> pageno \<Rightarrow> nat \<Rightarrow> LRUBufferPool \<times> Page option" where
  "LoadPageFromDisk st no psz =
     (let page = Page_new no psz;
          offset = off_t_mul (unat no) psz
      in (case load_from_fd page (disk st) offset of
            (ok, page', w') \<Rightarrow>
              (st\<lparr>disk := w'\<rparr>,
               Some (if ok then page' else page'\<lparr>data := memset (data page') 0 0 psz\<rparr>))))"

definition GetPage :: "LRUBufferPool \<Rightarrow> pageno \<Rightarrow> nat \<Rightarrow> error + (LRUBufferPool \<times> Page option)" where
  "GetPage st no psz =
     (case map_of (page_table st) no of
        Some page \<Rightarrow>
          Inr (MoveToFront (st\<lparr>hit_count := (hit_count st + 1) mod 2 ^ 64\<rparr>) no, Some page)
      | None \<Rightarrow>
          (case EvictIfNeeded (st\<lparr>miss_count := (miss_count st + 1) mod 2 ^ 64\<rparr>) of
             Inl e \<Rightarrow> Inl e
           | Inr st1 \<Rightarrow>
               (case LoadPageFromDisk st1 no psz of
                  (st2, None) \<Rightarrow> Inr (st2, None)
                | (st2, Some page) \<Rightarrow>
                    Inr (st2\<lparr>page_table := AList.update no page (page_table st2),
                             lru_list := no # lru_list st2\<rparr>,
                         Some page))))"

text \<open>
  \<open>read_page\<close> and \<open>write_page\<close>: the \<open>PinGuard\<close> pins the frame for the copy and unpins it
  afterwards. An exception of \<open>ReadAt\<close> or \<open>WriteAt\<close> leaves the operation as \<open>Inl\<close>.
\<close>

definition read_page ::
  "LRUBufferPool \<Rightarrow> pageno \<Rightarrow> nat \<Rightarrow> byte list option \<Rightarrow> error + (LRUBufferPool \<times> byte list option)" where
  "read_page st no psz buf =
     (case GetPage st no psz of
        Inl e \<Rightarrow> Inl e
      | Inr (st1, None) \<Rightarrow> Inr (st1\<lparr>cerr := cerr st1 @ [FailedToGetPage no]\<rparr>, buf)
      | Inr (st1, Some page) \<Rightarrow>
          (case ReadAt (pin page) 0 buf psz of
             Inl e \<Rightarrow> Inl e
           | Inr (n, out) \<Rightarrow>
               Inr (st1\<lparr>page_table := AList.update no (fst (unpin (pin page))) (page_table st1)\<rparr>,
                    Some out)))"

definition write_page ::
  "LRUBufferPool \<Rightarrow> pageno \<Rightarrow> nat \<Rightarrow> byte list option \<Rightarrow> error + LRUBufferPool" where
  "write_page st no psz buf =
     (case GetPage st no psz of
        Inl e \<Rightarrow> Inl e
      | Inr (st1, None) \<Rightarrow> Inr (st1\<lparr>cerr := cerr st1 @ [FailedToGetPage no]\<rparr>)
      | Inr (st1, Some page) \<Rightarrow>
          (case WriteAt (pin page) 0 buf psz of
             Inl e \<Rightarrow> Inl e
           | Inr (n, page') \<Rightarrow>
               Inr (st1\<lparr>page_table := AList.update no (fst (unpin page')) (page_table st1)\<rparr>)))"

text \<open>
  \<open>FlushAll\<close> visits the entries of the table in the order of the hash table's iteration,
  which the caller of the model supplies as \<open>order\<close>.
\<close>

fun FlushAll :: "LRUBufferPool \<Rightarrow> pageno list \<Rightarrow> LRUBufferPool" where
  "FlushAll st [] = st"
| "FlushAll st (pid # order) =
     (case map_of (page_table st) pid of
        None \<Rightarrow> FlushAll st order
      | Some page \<Rightarrow>
          (case FlushPage st page of
             (ok, page', st1) \<Rightarrow>
               FlushAll (st1\<lparr>page_table := AList.update pid page' (page_table st1)\<rparr>) order))"

text \<open>A client's history: the operations of one thread of control, one after the other.\<close>

datatype op =
    ReadPage pageno nat "byte list option"
  | WritePage pageno nat "byte list option"
  | FlushAllOp "pageno list"

fun step :: "LRUBufferPool \<Rightarrow> op \<Rightarrow> error + LRUBufferPool" where
  "step st (ReadPage no psz buf) =
     (case read_page st no psz buf of Inl e \<Rightarrow> Inl e | Inr (st', out) \<Rightarrow> Inr st')"
| "step st (WritePage no psz buf) = write_page st no psz buf"
| "step st (FlushAllOp order) = Inr (FlushAll st order)"

fun run :: "LRUBufferPool \<Rightarrow> op list \<Rightarrow> error + LRUBufferPool" where
  "run st [] = Inr st"
| "run st (x # xs) = (case step st x of Inl e \<Rightarrow> Inl e | Inr st' \<Rightarrow> run st' xs)"

section \<open>Invariants of the pool\<close>

text \<open>
  \<open>pinned_at\<close>: the page number is resident and its frame has a pin count other than 0, which
  is what the eviction walk tests. \<open>index_recency_inv\<close>: the table has one entry per key, the
  list has no repetition, and both hold the same page numbers. \<open>evictable\<close>: some resident
  frame is unpinned, so that a walk over a list that holds the keys finds a victim.
\<close>

definition pinned_at :: "LRUBufferPool \<Rightarrow> pageno \<Rightarrow> bool" where
  "pinned_at st k \<longleftrightarrow> (case map_of (page_table st) k of None \<Rightarrow> False | Some p \<Rightarrow> pin_count p \<noteq> 0)"

definition index_recency_inv :: "LRUBufferPool \<Rightarrow> bool" where
  "index_recency_inv st \<longleftrightarrow>
     distinct (map fst (page_table st)) \<and> distinct (lru_list st)
     \<and> set (lru_list st) = fst ` set (page_table st)"

definition evictable :: "LRUBufferPool \<Rightarrow> bool" where
  "evictable st \<longleftrightarrow> (\<exists>(k, p) \<in> set (page_table st). pin_count p = 0)"

text \<open>
  What the pool holds of a page. \<open>byte_at\<close> is the byte a complete read finds at a position of
  the file, 0 at and past its end, and \<open>read_range\<close> the bytes of a span. \<open>logical_page\<close> is the
  buffer of the resident frame, or else the page's span in the file. A resident frame is
  \<open>frame_ok\<close> when it carries its key and the pool's page size, is loaded, and, unless dirty,
  equals its span in the file; the pool is \<open>coherent\<close> when every frame is, no permanent
  failure is pending in the script, and the page size keeps every offset within \<open>off_t\<close>.
\<close>

definition byte_at :: "byte list \<Rightarrow> nat \<Rightarrow> byte" where
  "byte_at f i = (if i < length f then f ! i else 0)"

definition read_range :: "byte list \<Rightarrow> nat \<Rightarrow> nat \<Rightarrow> byte list" where
  "read_range f off n = map (byte_at f) [off ..< off + n]"

definition frame_ok :: "LRUBufferPool \<Rightarrow> pageno \<Rightarrow> Page \<Rightarrow> bool" where
  "frame_ok st k p \<longleftrightarrow>
     page_id p = k \<and> page_size p = pool_page_size st \<and> length (data p) = pool_page_size st
     \<and> loaded p
     \<and> (\<not> dirty p \<longrightarrow>
          data p = read_range (contents (disk st)) (unat k * pool_page_size st) (pool_page_size st))"

definition coherent :: "LRUBufferPool \<Rightarrow> bool" where
  "coherent st \<longleftrightarrow>
     index_recency_inv st \<and> IoFail \<notin> set (events (disk st)) \<and> pool_page_size st < 2 ^ 31
     \<and> (\<forall>k p. map_of (page_table st) k = Some p \<longrightarrow> frame_ok st k p)"

definition logical_page :: "LRUBufferPool \<Rightarrow> pageno \<Rightarrow> byte list" where
  "logical_page st k =
     (case map_of (page_table st) k of
        Some p \<Rightarrow> data p
      | None \<Rightarrow> read_range (contents (disk st)) (unat k * pool_page_size st) (pool_page_size st))"

text \<open>
  \<open>op_sized s\<close>: the operation uses page size \<open>s\<close> and hands over a buffer of at least \<open>s\<close>
  bytes. \<open>writes_page k\<close>: the operation is a \<open>write_page\<close> of page \<open>k\<close>.
\<close>

fun op_sized :: "nat \<Rightarrow> op \<Rightarrow> bool" where
  "op_sized s (ReadPage no psz buf) = (psz = s \<and> (case buf of None \<Rightarrow> False | Some b \<Rightarrow> s \<le> length b))"
| "op_sized s (WritePage no psz buf) = (psz = s \<and> (case buf of None \<Rightarrow> False | Some b \<Rightarrow> s \<le> length b))"
| "op_sized s (FlushAllOp order) = True"

fun writes_page :: "pageno \<Rightarrow> op \<Rightarrow> bool" where
  "writes_page k (ReadPage no psz buf) = False"
| "writes_page k (WritePage no psz buf) = (no = k)"
| "writes_page k (FlushAllOp order) = False"

section \<open>Example states\<close>

text \<open>A pool of capacity 1 over a four-byte file, whose next system call fails for good.\<close>

definition pool_io_fail :: LRUBufferPool where
  "pool_io_fail = \<lparr>fd = 3, capacity = 1, pool_page_size = 4, page_table = [], lru_list = [],
      hit_count = 0, miss_count = 0, disk = \<lparr>contents = [1, 2, 3, 4], events = [IoFail]\<rparr>,
      cerr = []\<rparr>"

text \<open>
  Pools of capacity 1 and 0 over an empty file, and a pool of capacity 1 whose only frame
  is pinned by a reader that holds its \<open>PinGuard\<close>.
\<close>

definition pool_cap1 :: LRUBufferPool where
  "pool_cap1 = \<lparr>fd = 3, capacity = 1, pool_page_size = 4, page_table = [], lru_list = [],
      hit_count = 0, miss_count = 0, disk = \<lparr>contents = [], events = []\<rparr>, cerr = []\<rparr>"

definition pool_cap0 :: LRUBufferPool where
  "pool_cap0 = \<lparr>fd = 3, capacity = 0, pool_page_size = 4, page_table = [], lru_list = [],
      hit_count = 0, miss_count = 0, disk = \<lparr>contents = [], events = []\<rparr>, cerr = []\<rparr>"

definition pool_pinned :: LRUBufferPool where
  "pool_pinned = \<lparr>fd = 3, capacity = 1, pool_page_size = 4,
      page_table = [(0, pin ((Page_new 0 4)\<lparr>loaded := True\<rparr>))], lru_list = [0],
      hit_count = 0, miss_count = 1, disk = \<lparr>contents = [], events = []\<rparr>, cerr = []\<rparr>"

text \<open>
  Two pools that hold pages 0 and 1, page 1 used last. The first has capacity 1 and no frame
  pinned: it is what \<open>pool_pinned\<close> becomes when page 1 is read and the reader of page 0 then
  releases its \<open>PinGuard\<close>. The second has capacity 2 and page 0 pinned by a reader.
\<close>

definition pool_over :: LRUBufferPool where
  "pool_over = \<lparr>fd = 3, capacity = 1, pool_page_size = 4,
      page_table = [(0, (Page_new 0 4)\<lparr>loaded := True\<rparr>), (1, (Page_new 1 4)\<lparr>loaded := True\<rparr>)],
      lru_list = [1, 0], hit_count = 0, miss_count = 2,
      disk = \<lparr>contents = [], events = []\<rparr>, cerr = [AllPinnedWarning]\<rparr>"

definition pool_part_pinned :: LRUBufferPool where
  "pool_part_pinned = \<lparr>fd = 3, capacity = 2, pool_page_size = 4,
      page_table = [(0, pin ((Page_new 0 4)\<lparr>loaded := True\<rparr>)),
                    (1, (Page_new 1 4)\<lparr>loaded := True\<rparr>)],
      lru_list = [1, 0], hit_count = 0, miss_count = 2,
      disk = \<lparr>contents = [], events = []\<rparr>, cerr = []\<rparr>"

text \<open>
  A pool configured with pages of 8 bytes; a pool whose system calls are disturbed by
  interruptions and short transfers; a pool holding one dirty frame, with and without a
  permanent failure pending.
\<close>

definition pool_size8 :: LRUBufferPool where
  "pool_size8 = \<lparr>fd = 3, capacity = 1, pool_page_size = 8, page_table = [], lru_list = [],
      hit_count = 0, miss_count = 0, disk = \<lparr>contents = [], events = []\<rparr>, cerr = []\<rparr>"

definition pool_bumpy :: LRUBufferPool where
  "pool_bumpy = \<lparr>fd = 3, capacity = 1, pool_page_size = 4, page_table = [], lru_list = [],
      hit_count = 0, miss_count = 0,
      disk = \<lparr>contents = [], events = [IoOk, IoShort 0, IoEINTR, IoShort 1, IoEINTR, IoOk,
                                        IoShort 2, IoEINTR]\<rparr>,
      cerr = []\<rparr>"

definition pool_dirty :: LRUBufferPool where
  "pool_dirty = \<lparr>fd = 3, capacity = 1, pool_page_size = 4,
      page_table = [(5, (Page_new 5 4)\<lparr>data := [1, 2, 3, 4], dirty := True, loaded := True\<rparr>)],
      lru_list = [5], hit_count = 0, miss_count = 1,
      disk = \<lparr>contents = [], events = []\<rparr>, cerr = []\<rparr>"

definition pool_dirty_fail :: LRUBufferPool where
  "pool_dirty_fail = pool_dirty\<lparr>disk := \<lparr>contents = [], events = [IoFail]\<rparr>\<rparr>"

section \<open>Properties of the frame\<close>

lemma sint_pred_pos:
  fixes w :: "32 word"
  assumes "0 < sint w"
  shows "sint (w - 1) = sint w - 1"
proof -
  have "sint w < 2 ^ 31"
    using sint_lt [of w] by simp
  with assms have "signed_take_bit 31 (sint w - 1) = sint w - 1"
    by (intro signed_take_bit_int_eq_self) auto
  then show ?thesis
    by (simp add: sint_word_diff)
qed

lemma replicate_4: "replicate 4 x = [x, x, x, x]"
  by (simp add: eval_nat_numeral)

lemma length_memcpy:
  "doff + n \<le> length dst \<Longrightarrow> n \<le> length src \<Longrightarrow> length (memcpy dst doff src n) = length dst"
  by (simp add: memcpy_def)

lemma nth_memcpy:
  assumes "doff + n \<le> length dst" "n \<le> length src" "i < length dst"
  shows "memcpy dst doff src n ! i =
           (if doff \<le> i \<and> i < doff + n then src ! (i - doff) else dst ! i)"
  using assms by (auto simp: memcpy_def nth_append)

text \<open>
  Claim C9. \<open>unpin\<close> on a positive pin count stores and returns the count minus one; on a
  count \<open>\<le> 0\<close> it stores 0 and returns 0. The count after an \<open>unpin\<close> is never negative, and
  an \<open>unpin\<close> at 0 leaves 0.
\<close>

theorem unpin_underflow_safe:
  "(0 < sint (pin_count p) \<longrightarrow>
      pin_count (fst (unpin p)) = pin_count p - 1
      \<and> sint (pin_count (fst (unpin p))) = sint (pin_count p) - 1
      \<and> snd (unpin p) = sint (pin_count p) - 1)
   \<and> (sint (pin_count p) \<le> 0 \<longrightarrow> pin_count (fst (unpin p)) = 0 \<and> snd (unpin p) = 0)
   \<and> 0 \<le> sint (pin_count (fst (unpin p)))
   \<and> snd (unpin p) = sint (pin_count (fst (unpin p)))
   \<and> (pin_count p = 0 \<longrightarrow> pin_count (fst (unpin p)) = 0)"
  by (auto simp: unpin_def Let_def sint_pred_pos)

theorem unpin_underflow_safe_witness:
  "snd (unpin (pin (pin (Page_new 7 8)))) = 1
   \<and> pin_count (fst (unpin (pin (pin (Page_new 7 8))))) = 1
   \<and> snd (unpin (Page_new 7 8)) = 0
   \<and> pin_count (fst (unpin (Page_new 7 8))) = 0
   \<and> pin_count (fst (unpin ((Page_new 7 8)\<lparr>pin_count := - 3\<rparr>))) = 0"
  using unpin_underflow_safe [of "pin (pin (Page_new 7 8))"]
        unpin_underflow_safe [of "Page_new 7 8"]
        unpin_underflow_safe [of "(Page_new 7 8)\<lparr>pin_count := - 3\<rparr>"]
  by (simp add: pin_def Page_new_def)

text \<open>
  Claim C7. For a frame whose buffer has \<open>page_size\<close> bytes and a caller buffer of at
  least \<open>len\<close> bytes, \<open>ReadAt\<close> and \<open>WriteAt\<close> return a count and never throw. With
  \<open>offset \<ge> page_size\<close> the count is 0, the caller's buffer and the frame (its \<open>dirty\<close> flag
  included) are as before. Otherwise the count is \<open>min len (page_size - offset)\<close> (0 for a
  \<open>ReadAt\<close> of a frame that is not loaded); exactly the frame bytes
  \<open>offset ..< offset + count\<close>, all below \<open>page_size\<close>, are copied out, respectively
  overwritten, and every other byte on either side keeps its value.
\<close>

theorem ReadAt_WriteAt_bounds:
  assumes "length (data p) = page_size p" and "len \<le> length buf"
  shows "(\<exists>n out. ReadAt p offset (Some buf) len = Inr (n, out)
            \<and> n = (if page_size p \<le> offset \<or> \<not> loaded p then 0
                   else min len (page_size p - offset))
            \<and> (page_size p \<le> offset \<longrightarrow> out = buf)
            \<and> length out = length buf
            \<and> (\<forall>i < length buf. out ! i = (if i < n then data p ! (offset + i) else buf ! i))
            \<and> (\<forall>i < n. offset + i < page_size p))
       \<and> (\<exists>n p'. WriteAt p offset (Some buf) len = Inr (n, p')
            \<and> n = (if page_size p \<le> offset then 0 else min len (page_size p - offset))
            \<and> (page_size p \<le> offset \<longrightarrow> p' = p)
            \<and> (offset < page_size p \<longrightarrow> dirty p' \<and> loaded p')
            \<and> page_size p' = page_size p \<and> page_id p' = page_id p
            \<and> pin_count p' = pin_count p
            \<and> length (data p') = page_size p
            \<and> offset + n \<le> max offset (page_size p)
            \<and> (\<forall>i < page_size p. data p' ! i =
                   (if offset \<le> i \<and> i < offset + n then buf ! (i - offset) else data p ! i)))"
proof (intro conjI)
  show "\<exists>n out. ReadAt p offset (Some buf) len = Inr (n, out)
            \<and> n = (if page_size p \<le> offset \<or> \<not> loaded p then 0
                   else min len (page_size p - offset))
            \<and> (page_size p \<le> offset \<longrightarrow> out = buf)
            \<and> length out = length buf
            \<and> (\<forall>i < length buf. out ! i = (if i < n then data p ! (offset + i) else buf ! i))
            \<and> (\<forall>i < n. offset + i < page_size p)"
    using assms
    by (auto simp: ReadAt_def Let_def length_memcpy nth_memcpy)
next
  show "\<exists>n p'. WriteAt p offset (Some buf) len = Inr (n, p')
            \<and> n = (if page_size p \<le> offset then 0 else min len (page_size p - offset))
            \<and> (page_size p \<le> offset \<longrightarrow> p' = p)
            \<and> (offset < page_size p \<longrightarrow> dirty p' \<and> loaded p')
            \<and> page_size p' = page_size p \<and> page_id p' = page_id p
            \<and> pin_count p' = pin_count p
            \<and> length (data p') = page_size p
            \<and> offset + n \<le> max offset (page_size p)
            \<and> (\<forall>i < page_size p. data p' ! i =
                   (if offset \<le> i \<and> i < offset + n then buf ! (i - offset) else data p ! i))"
    using assms
    by (auto simp: WriteAt_def Let_def length_memcpy nth_memcpy)
qed

theorem ReadAt_WriteAt_bounds_witness:
  "ReadAt ((Page_new 3 4)\<lparr>data := [1, 2, 3, 4], loaded := True\<rparr>) 2 (Some [9, 9, 9]) 3
     = Inr (2, [3, 4, 9])
   \<and> ReadAt ((Page_new 3 4)\<lparr>data := [1, 2, 3, 4], loaded := True\<rparr>) 4 (Some [9, 9, 9]) 3
     = Inr (0, [9, 9, 9])
   \<and> ReadAt (Page_new 3 4) 0 (Some [9, 9, 9]) 3 = Inr (0, [9, 9, 9])
   \<and> WriteAt (Page_new 3 4) 4 (Some [9, 9, 9]) 3 = Inr (0, Page_new 3 4)
   \<and> WriteAt (Page_new 3 4) 2 (Some [7, 8, 9]) 3
     = Inr (2, (Page_new 3 4)\<lparr>loaded := True, data := [0, 0, 7, 8], dirty := True\<rparr>)"
  using ReadAt_WriteAt_bounds
          [of "(Page_new 3 4)\<lparr>data := [1, 2, 3, 4], loaded := True\<rparr>" 3 "[9, 9, 9]" 2]
        ReadAt_WriteAt_bounds [of "Page_new 3 4" 3 "[7, 8, 9]" 2]
  by (simp add: ReadAt_def WriteAt_def memcpy_def Page_new_def eval_nat_numeral)

section \<open>Properties of the pool\<close>

subsection \<open>The miss path always yields a frame\<close>

lemma evict_walk_total:
  "set todo \<subseteq> fst ` set (page_table st) \<Longrightarrow> \<exists>st'. evict_walk st todo visited = Inr st'"
proof (induction todo arbitrary: visited)
  case Nil
  then show ?case by simp
next
  case (Cons pid todo)
  from Cons.prems obtain page where "map_of (page_table st) pid = Some page"
    by (cases "map_of (page_table st) pid") (auto simp: map_of_eq_None_iff)
  with Cons show ?case
    by (auto split: prod.splits)
qed

lemma EvictIfNeeded_total:
  "set (lru_list st) \<subseteq> fst ` set (page_table st) \<Longrightarrow> \<exists>st'. EvictIfNeeded st = Inr st'"
  using evict_walk_total [of "rev (lru_list st)" st "[]"]
  by (auto simp: EvictIfNeeded_def)

lemma LoadPageFromDisk_Some: "\<exists>st' page. LoadPageFromDisk st no psz = (st', Some page)"
  by (auto simp: LoadPageFromDisk_def Let_def split: prod.splits)

lemma GetPage_Some:
  assumes "GetPage st no psz = Inr (st', h)"
  shows "\<exists>page. h = Some page"
proof (cases "map_of (page_table st) no")
  case (Some page)
  from assms show ?thesis unfolding GetPage_def Some by auto
next
  case None
  show ?thesis
  proof (cases "EvictIfNeeded (st\<lparr>miss_count := (miss_count st + 1) mod 2 ^ 64\<rparr>)")
    case (Inl e)
    from assms show ?thesis unfolding GetPage_def None Inl by simp
  next
    case (Inr st1)
    obtain st2 page where L: "LoadPageFromDisk st1 no psz = (st2, Some page)"
      using LoadPageFromDisk_Some by blast
    from assms show ?thesis unfolding GetPage_def None Inr by (auto simp: L)
  qed
qed

lemma length_pread:
  "pread w count off = (Inr bs, w') \<Longrightarrow> length bs \<le> count"
  by (cases "events w"; cases "hd (events w)")
     (auto simp: pread_def next_event_def Let_def split: if_splits)

lemma length_load_loop:
  "ntotal \<le> psz \<Longrightarrow> length buf = psz \<Longrightarrow> length (fst (snd (load_loop w off psz buf ntotal))) = psz"
proof (induction w off psz buf ntotal rule: load_loop.induct)
  case (1 w file_offset psz buf ntotal)
  show ?case
  proof (cases "ntotal < psz")
    case False
    with 1 show ?thesis by (simp add: load_loop.simps)
  next
    case True
    obtain r w' where r: "pread w (psz - ntotal) (file_offset + int ntotal) = (r, w')"
      by (cases "pread w (psz - ntotal) (file_offset + int ntotal)")
    show ?thesis
    proof (cases r)
      case (Inl e)
      with True r 1 show ?thesis
        by (subst load_loop.simps) simp
    next
      case (Inr bs)
      with r have "length bs \<le> psz - ntotal" by (auto dest: length_pread)
      with True r Inr 1 show ?thesis
        by (subst load_loop.simps) (simp add: memset_def memcpy_def)
    qed
  qed
qed

subsection \<open>Construction\<close>

text \<open>
  Claim C6, as the code has it. The constructor fails exactly when the file cannot be opened.
  An empty page-size map is accepted and gives a pool of capacity 0 and page size 0; a
  non-empty map gives the page size and capacity of its first entry, whatever they are.
\<close>

theorem LRUBufferPool_new_only_open_fails:
  "((\<exists>e. LRUBufferPool_new w open_result page_no_info = Inl e) \<longleftrightarrow> open_result < 0)
   \<and> (0 \<le> open_result \<longrightarrow>
        (\<exists>st. LRUBufferPool_new w open_result [] = Inr st
              \<and> capacity st = 0 \<and> pool_page_size st = 0
              \<and> page_table st = [] \<and> lru_list st = [] \<and> disk st = w)
      \<and> (\<exists>st. LRUBufferPool_new w open_result ((s, c) # rest) = Inr st
              \<and> capacity st = c \<and> pool_page_size st = s
              \<and> page_table st = [] \<and> lru_list st = [] \<and> disk st = w))"
  by (auto simp: LRUBufferPool_new_def split: list.splits)

theorem LRUBufferPool_new_only_open_fails_witness:
  "capacity (projr (LRUBufferPool_new \<lparr>contents = [], events = []\<rparr> 3 [])) = 0
   \<and> capacity (projr (LRUBufferPool_new \<lparr>contents = [], events = []\<rparr> 3 [(8192, 16), (16384, 4)])) = 16
   \<and> LRUBufferPool_new \<lparr>contents = [], events = []\<rparr> (- 1) [(8192, 16)] = Inl OpenFailed"
  using LRUBufferPool_new_only_open_fails [of "\<lparr>contents = [], events = []\<rparr>" 3 "[]" 8192 16 "[(16384, 4)]"]
    LRUBufferPool_new_only_open_fails [of "\<lparr>contents = [], events = []\<rparr>" "- 1" "[(8192, 16)]"]
  by (auto simp: LRUBufferPool_new_def)

text \<open>
  Claim C6 as stated fails: with an empty map, or with the map \<open>{0 \<mapsto> 0}\<close>, and a file
  that opens, the constructor returns a pool.
\<close>

theorem empty_config_counterexample:
  "LRUBufferPool_new \<lparr>contents = [], events = []\<rparr> 3 [] =
     Inr \<lparr>fd = 3, capacity = 0, pool_page_size = 0, page_table = [], lru_list = [],
          hit_count = 0, miss_count = 0, disk = \<lparr>contents = [], events = []\<rparr>, cerr = []\<rparr>
   \<and> LRUBufferPool_new \<lparr>contents = [], events = []\<rparr> 3 [(0, 0)] =
     Inr \<lparr>fd = 3, capacity = 0, pool_page_size = 0, page_table = [], lru_list = [],
          hit_count = 0, miss_count = 0, disk = \<lparr>contents = [], events = []\<rparr>, cerr = []\<rparr>"
  by (simp add: LRUBufferPool_new_def)

subsection \<open>What the miss path logs and returns\<close>

lemma FlushPage_cerr: "FlushPage st page = (ok, page', st') \<Longrightarrow> cerr st' = cerr st"
  by (auto simp: FlushPage_def Let_def split: if_splits prod.splits)

lemma evict_walk_cerr:
  "evict_walk st todo visited = Inr st' \<Longrightarrow> set (cerr st') \<subseteq> insert AllPinnedWarning (set (cerr st))"
proof (induction todo arbitrary: visited)
  case Nil
  then show ?case by auto
next
  case (Cons pid todo)
  then show ?case
    by (auto split: option.splits if_splits prod.splits dest!: FlushPage_cerr)
qed

lemma LoadPageFromDisk_cerr: "LoadPageFromDisk st no psz = (st', h) \<Longrightarrow> cerr st' = cerr st"
  by (auto simp: LoadPageFromDisk_def Let_def split: prod.splits)

lemma GetPage_cerr:
  assumes "GetPage st no psz = Inr (st', h)"
  shows "set (cerr st') \<subseteq> insert AllPinnedWarning (set (cerr st))"
proof (cases "map_of (page_table st) no")
  case (Some page)
  from assms show ?thesis unfolding GetPage_def Some by (auto simp: MoveToFront_def)
next
  case None
  show ?thesis
  proof (cases "EvictIfNeeded (st\<lparr>miss_count := (miss_count st + 1) mod 2 ^ 64\<rparr>)")
    case (Inl e)
    from assms show ?thesis unfolding GetPage_def None Inl by simp
  next
    case (Inr st1)
    then have 1: "set (cerr st1) \<subseteq> insert AllPinnedWarning (set (cerr st))"
      using evict_walk_cerr [of "st\<lparr>miss_count := (miss_count st + 1) mod 2 ^ 64\<rparr>" _ "[]" st1]
      by (auto simp: EvictIfNeeded_def split: if_splits)
    obtain st2 page where L: "LoadPageFromDisk st1 no psz = (st2, Some page)"
      using LoadPageFromDisk_Some by blast
    from L have "cerr st2 = cerr st1" by (rule LoadPageFromDisk_cerr)
    with 1 assms show ?thesis unfolding GetPage_def None Inr by (auto simp: L)
  qed
qed

lemma LoadPageFromDisk_failed:
  assumes "\<not> fst (load_from_fd (Page_new no psz) (disk st) (off_t_mul (unat no) psz))"
  shows "snd (LoadPageFromDisk st no psz) = Some (Page_new no psz)"
proof -
  obtain ok buf w' where L: "load_loop (disk st) (off_t_mul (unat no) psz) psz (replicate psz 0) 0 = (ok, buf, w')"
    by (metis prod_cases3)
  have "length buf = psz"
    using length_load_loop [of 0 psz "replicate psz 0" "disk st" "off_t_mul (unat no) psz"] L by simp
  with assms L show ?thesis
    by (auto simp: LoadPageFromDisk_def load_from_fd_def Page_new_def memset_def Let_def split: if_splits)
qed

lemma FlushPage_fields:
  "FlushPage st page = (ok, page', st') \<Longrightarrow>
     hit_count st' = hit_count st \<and> miss_count st' = miss_count st
     \<and> capacity st' = capacity st \<and> pool_page_size st' = pool_page_size st \<and> fd st' = fd st
     \<and> page_table st' = page_table st \<and> lru_list st' = lru_list st"
  by (auto simp: FlushPage_def Let_def split: if_splits prod.splits)

lemma evict_walk_fields:
  "evict_walk st todo visited = Inr st' \<Longrightarrow>
     hit_count st' = hit_count st \<and> miss_count st' = miss_count st
     \<and> capacity st' = capacity st \<and> pool_page_size st' = pool_page_size st \<and> fd st' = fd st"
proof (induction todo arbitrary: visited)
  case Nil
  then show ?case by auto
next
  case (Cons pid todo)
  then show ?case
    by (auto split: option.splits if_splits prod.splits dest!: FlushPage_fields)
qed

lemma EvictIfNeeded_fields:
  "EvictIfNeeded st = Inr st' \<Longrightarrow>
     hit_count st' = hit_count st \<and> miss_count st' = miss_count st
     \<and> capacity st' = capacity st \<and> pool_page_size st' = pool_page_size st \<and> fd st' = fd st"
  using evict_walk_fields [of st "rev (lru_list st)" "[]" st']
  by (auto simp: EvictIfNeeded_def split: if_splits)

lemma LoadPageFromDisk_fields:
  "LoadPageFromDisk st no psz = (st', h) \<Longrightarrow>
     hit_count st' = hit_count st \<and> miss_count st' = miss_count st
     \<and> capacity st' = capacity st \<and> pool_page_size st' = pool_page_size st \<and> fd st' = fd st
     \<and> page_table st' = page_table st \<and> lru_list st' = lru_list st"
  by (auto simp: LoadPageFromDisk_def Let_def split: prod.splits)

lemma unpin_pin_unpinned: "pin_count p = 0 \<Longrightarrow> fst (unpin (pin p)) = p"
  by (simp add: unpin_def pin_def Let_def)

lemma GetPage_miss:
  assumes "map_of (page_table st) no = None"
    and "EvictIfNeeded (st\<lparr>miss_count := (miss_count st + 1) mod 2 ^ 64\<rparr>) = Inr st1"
    and "LoadPageFromDisk st1 no psz = (st2, Some page)"
  shows "GetPage st no psz =
           Inr (st2\<lparr>page_table := AList.update no page (page_table st1),
                    lru_list := no # lru_list st1\<rparr>, Some page)"
  using assms LoadPageFromDisk_fields [OF assms(3)] by (simp add: GetPage_def)

text \<open>
  Claim C5, as the code has it. When the load of a missing page fails, \<open>GetPage\<close> still
  returns a handle: the frame is zero-filled, neither loaded nor dirty, and is inserted in
  the table and at the front of the list; the miss counter is incremented as for any miss.
  A \<open>read_page\<close> of it copies nothing into the caller's buffer.
\<close>

theorem GetPage_failed_load_still_inserts:
  assumes "map_of (page_table st) no = None"
    and "EvictIfNeeded (st\<lparr>miss_count := (miss_count st + 1) mod 2 ^ 64\<rparr>) = Inr st1"
    and "\<not> fst (load_from_fd (Page_new no psz) (disk st1) (off_t_mul (unat no) psz))"
  shows "\<exists>st'. GetPage st no psz = Inr (st', Some (Page_new no psz))
           \<and> map_of (page_table st') no = Some (Page_new no psz)
           \<and> lru_list st' = no # lru_list st1
           \<and> miss_count st' = (miss_count st + 1) mod 2 ^ 64
           \<and> hit_count st' = hit_count st
           \<and> read_page st no psz (Some buf) = Inr (st', Some buf)"
proof -
  obtain st2 h where L: "LoadPageFromDisk st1 no psz = (st2, h)"
    by (cases "LoadPageFromDisk st1 no psz")
  with LoadPageFromDisk_failed [OF assms(3)] have h: "h = Some (Page_new no psz)"
    by simp
  let ?st' = "st2\<lparr>page_table := AList.update no (Page_new no psz) (page_table st1),
                   lru_list := no # lru_list st1\<rparr>"
  have G: "GetPage st no psz = Inr (?st', Some (Page_new no psz))"
    using GetPage_miss [OF assms(1,2)] L h by simp
  have 1: "map_of (page_table ?st') no = Some (Page_new no psz)"
    by (simp add: update_conv')
  have 2: "miss_count ?st' = (miss_count st + 1) mod 2 ^ 64 \<and> hit_count ?st' = hit_count st"
    using EvictIfNeeded_fields [OF assms(2)] LoadPageFromDisk_fields [OF L] by simp
  have 3: "read_page st no psz (Some buf) = Inr (?st', Some buf)"
    by (simp add: read_page_def G ReadAt_def pin_def unpin_def Page_new_def Let_def)
  from G 1 2 3 show ?thesis by simp
qed

lemmas pool_eval =
  GetPage_def EvictIfNeeded_def LoadPageFromDisk_def load_from_fd_def flush_to_fd_def FlushPage_def
  load_loop.simps flush_loop.simps pread_def pwrite_def write_bytes_def next_event_def
  off_t_mul_def to_off_t_def Page_new_def memset_def memcpy_def MoveToFront_def
  read_page_def write_page_def ReadAt_def WriteAt_def pin_def unpin_def Let_def


text \<open>
  Claim C5 as stated fails: the only \<open>pread\<close> of the load fails with \<open>EIO\<close>, and \<open>GetPage\<close>
  returns a frame, has it in the table and the list, and has counted the miss.
\<close>

theorem failed_load_counterexample:
  "GetPage pool_io_fail 0 4 =
     Inr (\<lparr>fd = 3, capacity = 1, pool_page_size = 4, page_table = [(0, Page_new 0 4)],
           lru_list = [0], hit_count = 0, miss_count = 1,
           disk = \<lparr>contents = [1, 2, 3, 4], events = []\<rparr>, cerr = []\<rparr>,
          Some (Page_new 0 4))"
  by (simp add: pool_io_fail_def pool_eval)

theorem GetPage_failed_load_still_inserts_witness:
  "map_of (page_table pool_io_fail) 0 = None
   \<and> EvictIfNeeded (pool_io_fail\<lparr>miss_count := (miss_count pool_io_fail + 1) mod 2 ^ 64\<rparr>)
       = Inr (pool_io_fail\<lparr>miss_count := 1\<rparr>)
   \<and> \<not> fst (load_from_fd (Page_new 0 4) (disk (pool_io_fail\<lparr>miss_count := 1\<rparr>)) (off_t_mul (unat (0 :: pageno)) 4))
   \<and> (\<exists>st'. GetPage pool_io_fail 0 4 = Inr (st', Some (Page_new 0 4))
         \<and> miss_count st' = 1 \<and> hit_count st' = 0
         \<and> read_page pool_io_fail 0 4 (Some [9, 9, 9, 9]) = Inr (st', Some [9, 9, 9, 9]))"
proof -
  have 1: "map_of (page_table pool_io_fail) 0 = None"
    by (simp add: pool_io_fail_def)
  have 2: "EvictIfNeeded (pool_io_fail\<lparr>miss_count := (miss_count pool_io_fail + 1) mod 2 ^ 64\<rparr>)
       = Inr (pool_io_fail\<lparr>miss_count := 1\<rparr>)"
    by (simp add: pool_io_fail_def EvictIfNeeded_def)
  have 3: "\<not> fst (load_from_fd (Page_new 0 4) (disk (pool_io_fail\<lparr>miss_count := 1\<rparr>)) (off_t_mul (unat (0 :: pageno)) 4))"
    by (simp add: pool_io_fail_def pool_eval)
  from GetPage_failed_load_still_inserts [OF 1 2 3, of "[9, 9, 9, 9]"] 1 2 3
  show ?thesis by (auto simp: pool_io_fail_def)
qed

text \<open>
  Claim C10. \<open>LoadPageFromDisk\<close> always returns a frame, zero-filled when the read failed.
  Whenever \<open>GetPage\<close> returns, its handle is not null, so \<open>read_page\<close> and \<open>write_page\<close>
  go on to \<open>ReadAt\<close> and \<open>WriteAt\<close> on that frame and nothing but the all-pinned warning is
  logged; and \<open>GetPage\<close> does return when every page number of the list is a key of the
  table.
\<close>

theorem GetPage_never_null:
  "(\<exists>st' page. LoadPageFromDisk st no psz = (st', Some page)
       \<and> (\<not> fst (load_from_fd (Page_new no psz) (disk st) (off_t_mul (unat no) psz))
            \<longrightarrow> page = Page_new no psz))
   \<and> (\<forall>st1 h. GetPage st no psz = Inr (st1, h) \<longrightarrow>
         (\<exists>page. h = Some page
            \<and> set (cerr st1) \<subseteq> insert AllPinnedWarning (set (cerr st))
            \<and> read_page st no psz buf =
                (case ReadAt (pin page) 0 buf psz of
                   Inl e \<Rightarrow> Inl e
                 | Inr (n, out) \<Rightarrow>
                     Inr (st1\<lparr>page_table := AList.update no (fst (unpin (pin page))) (page_table st1)\<rparr>,
                          Some out))
            \<and> write_page st no psz buf =
                (case WriteAt (pin page) 0 buf psz of
                   Inl e \<Rightarrow> Inl e
                 | Inr (n, page') \<Rightarrow>
                     Inr (st1\<lparr>page_table := AList.update no (fst (unpin page')) (page_table st1)\<rparr>))))
   \<and> (set (lru_list st) \<subseteq> fst ` set (page_table st) \<longrightarrow>
         (\<exists>st1 page. GetPage st no psz = Inr (st1, Some page)))"
proof (intro conjI allI impI)
  show "\<exists>st' page. LoadPageFromDisk st no psz = (st', Some page)
       \<and> (\<not> fst (load_from_fd (Page_new no psz) (disk st) (off_t_mul (unat no) psz))
            \<longrightarrow> page = Page_new no psz)"
    using LoadPageFromDisk_Some [of st no psz] LoadPageFromDisk_failed [of no psz st]
    by auto
next
  fix st1 h
  assume G: "GetPage st no psz = Inr (st1, h)"
  then obtain page where h: "h = Some page"
    using GetPage_Some by blast
  show "\<exists>page. h = Some page
            \<and> set (cerr st1) \<subseteq> insert AllPinnedWarning (set (cerr st))
            \<and> read_page st no psz buf =
                (case ReadAt (pin page) 0 buf psz of
                   Inl e \<Rightarrow> Inl e
                 | Inr (n, out) \<Rightarrow>
                     Inr (st1\<lparr>page_table := AList.update no (fst (unpin (pin page))) (page_table st1)\<rparr>,
                          Some out))
            \<and> write_page st no psz buf =
                (case WriteAt (pin page) 0 buf psz of
                   Inl e \<Rightarrow> Inl e
                 | Inr (n, page') \<Rightarrow>
                     Inr (st1\<lparr>page_table := AList.update no (fst (unpin page')) (page_table st1)\<rparr>))"
    using G h GetPage_cerr [OF G] by (simp add: read_page_def write_page_def)
next
  assume sub: "set (lru_list st) \<subseteq> fst ` set (page_table st)"
  show "\<exists>st1 page. GetPage st no psz = Inr (st1, Some page)"
  proof (cases "map_of (page_table st) no")
    case (Some page)
    then show ?thesis by (simp add: GetPage_def)
  next
    case None
    from sub obtain st1
      where E: "EvictIfNeeded (st\<lparr>miss_count := (miss_count st + 1) mod 2 ^ 64\<rparr>) = Inr st1"
      using EvictIfNeeded_total [of "st\<lparr>miss_count := (miss_count st + 1) mod 2 ^ 64\<rparr>"]
      by auto
    obtain st2 page where L: "LoadPageFromDisk st1 no psz = (st2, Some page)"
      using LoadPageFromDisk_Some by blast
    from GetPage_miss [OF None E L] show ?thesis by blast
  qed
qed

theorem GetPage_never_null_witness:
  "set (lru_list pool_io_fail) \<subseteq> fst ` set (page_table pool_io_fail)
   \<and> (\<exists>st1 page. GetPage pool_io_fail 0 4 = Inr (st1, Some page) \<and> cerr st1 = []
         \<and> read_page pool_io_fail 0 4 (Some [9, 9, 9, 9]) \<noteq> Inl NullDeref)"
  using GetPage_never_null [of pool_io_fail 0 4 "Some [9, 9, 9, 9]"]
  by (simp add: pool_io_fail_def pool_eval)

subsection \<open>The eviction walk\<close>

lemma evict_walk_skip:
  "\<forall>k \<in> set pre. pinned_at st k \<Longrightarrow>
     evict_walk st (pre @ rest) visited = evict_walk st rest (rev pre @ visited)"
proof (induction pre arbitrary: visited)
  case Nil
  then show ?case by simp
next
  case (Cons k pre)
  then show ?case
    by (auto simp: pinned_at_def split: option.splits)
qed

lemma evict_walk_victim:
  assumes "\<forall>k \<in> set pre. pinned_at st k"
    and "map_of (page_table st) pid = Some page" and "pin_count page = 0"
  shows "evict_walk st (pre @ pid # post) visited =
           Inr ((snd (snd (FlushPage st page)))
                  \<lparr>page_table := AList.delete pid (page_table st),
                   lru_list := rev post @ rev pre @ visited\<rparr>)"
proof -
  obtain ok page' st1 where F: "FlushPage st page = (ok, page', st1)"
    by (metis prod_cases3)
  from FlushPage_fields [OF F] have "page_table st1 = page_table st" by simp
  with assms F show ?thesis
    by (simp add: evict_walk_skip)
qed

lemma evict_walk_all_pinned:
  "\<forall>k \<in> set todo. pinned_at st k \<Longrightarrow>
     evict_walk st todo visited = Inr (st\<lparr>cerr := cerr st @ [AllPinnedWarning]\<rparr>)"
  using evict_walk_skip [of todo st "[]" visited] by simp

lemma evict_walk_cases:
  assumes "evict_walk st todo visited = Inr st'"
  shows "(\<exists>pre pid post page. todo = pre @ pid # post
            \<and> (\<forall>k \<in> set pre. pinned_at st k)
            \<and> map_of (page_table st) pid = Some page \<and> pin_count page = 0
            \<and> st' = (snd (snd (FlushPage st page)))
                  \<lparr>page_table := AList.delete pid (page_table st),
                   lru_list := rev post @ rev pre @ visited\<rparr>)
       \<or> ((\<forall>k \<in> set todo. pinned_at st k) \<and> st' = st\<lparr>cerr := cerr st @ [AllPinnedWarning]\<rparr>)"
proof (cases "\<forall>k \<in> set todo. pinned_at st k")
  case True
  with assms evict_walk_all_pinned [OF True, of visited] show ?thesis by simp
next
  case False
  then obtain pre pid post where split: "todo = pre @ pid # post"
    and pre: "\<forall>k \<in> set pre. pinned_at st k" and pid: "\<not> pinned_at st pid"
    using split_list_first_prop [of todo "\<lambda>k. \<not> pinned_at st k"] by auto
  show ?thesis
  proof (cases "map_of (page_table st) pid")
    case None
    with assms split pre have False
      by (simp add: evict_walk_skip)
    then show ?thesis ..
  next
    case (Some page)
    with pid have pc: "pin_count page = 0" by (simp add: pinned_at_def)
    from assms split have st': "st' = (snd (snd (FlushPage st page)))
                  \<lparr>page_table := AList.delete pid (page_table st),
                   lru_list := rev post @ rev pre @ visited\<rparr>"
      using evict_walk_victim [OF pre Some pc, of post visited] by simp
    show ?thesis
      apply (rule disjI1)
      apply (rule exI [of _ pre], rule exI [of _ pid], rule exI [of _ post], rule exI [of _ page])
      using split pre Some pc st' apply simp
      done
  qed
qed

subsection \<open>Index and Recency hold the same page numbers\<close>

lemma length_update_new:
  "k \<notin> fst ` set al \<Longrightarrow> length (AList.update k v al) = Suc (length al)"
  by (induction al) auto

lemma length_update_old:
  "k \<in> fst ` set al \<Longrightarrow> length (AList.update k v al) = length al"
  by (induction al) auto

lemma length_delete_distinct:
  "distinct (map fst al) \<Longrightarrow> k \<in> fst ` set al \<Longrightarrow> Suc (length (AList.delete k al)) = length al"
  by (induction al) (auto simp: rev_image_eqI)

lemma keys_delete: "fst ` set (AList.delete k al) = fst ` set al - {k}"
  by (induction al) auto

lemma inv_MoveToFront:
  "index_recency_inv st \<Longrightarrow> no \<in> fst ` set (page_table st) \<Longrightarrow> index_recency_inv (MoveToFront st no)"
  by (auto simp: index_recency_inv_def MoveToFront_def distinct_removeAll)

lemma inv_evict_walk:
  assumes "index_recency_inv st" and "evict_walk st (rev (lru_list st)) [] = Inr st'"
  shows "index_recency_inv st'"
  using evict_walk_cases [OF assms(2)]
proof (elim disjE exE conjE)
  fix pre pid post page
  assume split: "rev (lru_list st) = pre @ pid # post"
    and st': "st' = (snd (snd (FlushPage st page)))
                  \<lparr>page_table := AList.delete pid (page_table st),
                   lru_list := rev post @ rev pre @ []\<rparr>"
  from split have l: "lru_list st = rev post @ pid # rev pre"
    by (metis rev_append rev.simps(2) rev_rev_ident append.assoc append_Cons append_Nil)
  with assms(1) show ?thesis
    unfolding st' index_recency_inv_def
    by (auto simp: keys_delete distinct_delete)
next
  assume "st' = st\<lparr>cerr := cerr st @ [AllPinnedWarning]\<rparr>"
  with assms(1) show ?thesis by (simp add: index_recency_inv_def)
qed

lemma inv_EvictIfNeeded:
  "index_recency_inv st \<Longrightarrow> EvictIfNeeded st = Inr st' \<Longrightarrow> index_recency_inv st'"
  using inv_evict_walk by (auto simp: EvictIfNeeded_def split: if_splits)

lemma EvictIfNeeded_keys_subset:
  assumes "EvictIfNeeded st = Inr st'"
  shows "map_of (page_table st') k = None \<or> map_of (page_table st') k = map_of (page_table st) k"
proof (cases "length (page_table st) < capacity st")
  case True
  with assms show ?thesis by (simp add: EvictIfNeeded_def)
next
  case False
  with assms have "evict_walk st (rev (lru_list st)) [] = Inr st'"
    by (simp add: EvictIfNeeded_def)
  from evict_walk_cases [OF this] show ?thesis
    by (auto simp: delete_conv')
qed

lemma inv_GetPage:
  assumes "index_recency_inv st" and "GetPage st no psz = Inr (st', h)"
  shows "index_recency_inv st'"
proof (cases "map_of (page_table st) no")
  case (Some page)
  then have "no \<in> fst ` set (page_table st)"
    by (metis map_of_eq_None_iff option.distinct(1))
  with assms Some show ?thesis
    using inv_MoveToFront [of "st\<lparr>hit_count := (hit_count st + 1) mod 2 ^ 64\<rparr>" no]
    by (simp add: GetPage_def index_recency_inv_def)
next
  case None
  let ?s = "st\<lparr>miss_count := (miss_count st + 1) mod 2 ^ 64\<rparr>"
  from assms None obtain st1 where E: "EvictIfNeeded ?s = Inr st1"
    by (cases "EvictIfNeeded ?s") (auto simp: GetPage_def)
  obtain st2 page where L: "LoadPageFromDisk st1 no psz = (st2, Some page)"
    using LoadPageFromDisk_Some by blast
  from assms(1) have "index_recency_inv ?s" by (simp add: index_recency_inv_def)
  then have i1: "index_recency_inv st1" using E by (rule inv_EvictIfNeeded)
  from EvictIfNeeded_keys_subset [OF E, of no] None have "map_of (page_table st1) no = None"
    by auto
  then have nk: "no \<notin> fst ` set (page_table st1)" by (simp add: map_of_eq_None_iff)
  from GetPage_miss [OF None E L] assms(2)
  have "st' = st2\<lparr>page_table := AList.update no page (page_table st1), lru_list := no # lru_list st1\<rparr>"
    by simp
  with i1 nk show ?thesis
    by (auto simp: index_recency_inv_def distinct_update dom_update)
qed

lemma GetPage_resident:
  assumes "GetPage st no psz = Inr (st', Some page)"
  shows "map_of (page_table st') no = Some page"
proof (cases "map_of (page_table st) no")
  case (Some p)
  with assms show ?thesis by (auto simp: GetPage_def MoveToFront_def)
next
  case None
  let ?s = "st\<lparr>miss_count := (miss_count st + 1) mod 2 ^ 64\<rparr>"
  from assms None obtain st1 where E: "EvictIfNeeded ?s = Inr st1"
    by (cases "EvictIfNeeded ?s") (auto simp: GetPage_def)
  obtain st2 page2 where L: "LoadPageFromDisk st1 no psz = (st2, Some page2)"
    using LoadPageFromDisk_Some by blast
  from GetPage_miss [OF None E L] assms show ?thesis
    by (auto simp: update_conv')
qed

lemma inv_update_resident:
  "index_recency_inv st \<Longrightarrow> map_of (page_table st) no = Some p \<Longrightarrow>
     index_recency_inv (st\<lparr>page_table := AList.update no p' (page_table st)\<rparr>)"
  by (auto simp: index_recency_inv_def distinct_update dom_update dest: map_of_SomeD intro: rev_image_eqI)

lemma inv_read_page:
  assumes "index_recency_inv st" and "read_page st no psz buf = Inr (st', out)"
  shows "index_recency_inv st'"
proof -
  from assms(2) obtain st1 page where G: "GetPage st no psz = Inr (st1, Some page)"
    by (auto simp: read_page_def split: sum.splits option.splits prod.splits dest: GetPage_Some)
  from inv_GetPage [OF assms(1) G] have i1: "index_recency_inv st1" .
  from assms(2) G inv_update_resident [OF i1 GetPage_resident [OF G]] show ?thesis
    by (auto simp: read_page_def split: sum.splits)
qed

lemma inv_write_page:
  assumes "index_recency_inv st" and "write_page st no psz buf = Inr st'"
  shows "index_recency_inv st'"
proof -
  from assms(2) obtain st1 page where G: "GetPage st no psz = Inr (st1, Some page)"
    by (auto simp: write_page_def split: sum.splits option.splits prod.splits dest: GetPage_Some)
  from inv_GetPage [OF assms(1) G] have i1: "index_recency_inv st1" .
  from assms(2) G inv_update_resident [OF i1 GetPage_resident [OF G]] show ?thesis
    by (auto simp: write_page_def split: sum.splits)
qed

lemma inv_FlushAll:
  "index_recency_inv st \<Longrightarrow> index_recency_inv (FlushAll st order)"
proof (induction order arbitrary: st)
  case Nil
  then show ?case by simp
next
  case (Cons pid order)
  show ?case
  proof (cases "map_of (page_table st) pid")
    case None
    with Cons show ?thesis by simp
  next
    case (Some page)
    obtain ok page' st1 where F: "FlushPage st page = (ok, page', st1)"
      by (metis prod_cases3)
    from FlushPage_fields [OF F] Cons.prems have "index_recency_inv st1"
      by (simp add: index_recency_inv_def)
    moreover from FlushPage_fields [OF F] Some have "map_of (page_table st1) pid = Some page"
      by simp
    ultimately have "index_recency_inv (st1\<lparr>page_table := AList.update pid page' (page_table st1)\<rparr>)"
      by (rule inv_update_resident)
    with Some F Cons.IH show ?thesis by simp
  qed
qed

lemma inv_step: "index_recency_inv st \<Longrightarrow> step st x = Inr st' \<Longrightarrow> index_recency_inv st'"
  by (cases x) (auto split: sum.splits dest: inv_read_page inv_write_page inv_FlushAll)

lemma inv_run: "index_recency_inv st \<Longrightarrow> run st xs = Inr st' \<Longrightarrow> index_recency_inv st'"
  by (induction xs arbitrary: st) (auto split: sum.splits dest: inv_step)

lemma inv_new: "LRUBufferPool_new w r cfg = Inr st \<Longrightarrow> index_recency_inv st"
  by (auto simp: LRUBufferPool_new_def index_recency_inv_def split: if_splits list.splits prod.splits)

subsection \<open>Residency within the capacity\<close>

lemma count_list_distinct: "distinct xs \<Longrightarrow> k \<in> set xs \<Longrightarrow> count_list xs k = 1"
  by (induction xs) (auto simp: count_list_0_iff)

lemma LoadPageFromDisk_page:
  "LoadPageFromDisk st no psz = (st', Some page) \<Longrightarrow>
     pin_count page = 0 \<and> page_id page = no \<and> page_size page = psz \<and> length (data page) = psz"
  using length_load_loop [of 0 psz "replicate psz 0" "disk st" "off_t_mul (unat no) psz"]
  by (auto simp: LoadPageFromDisk_def load_from_fd_def Page_new_def memset_def Let_def
           split: prod.splits if_splits)

lemma inv_subset: "index_recency_inv st \<Longrightarrow> set (lru_list st) \<subseteq> fst ` set (page_table st)"
  by (simp add: index_recency_inv_def)

lemma GetPage_total:
  assumes "set (lru_list st) \<subseteq> fst ` set (page_table st)"
  shows "\<exists>st1 page. GetPage st no psz = Inr (st1, Some page)"
proof (cases "map_of (page_table st) no")
  case (Some page)
  then show ?thesis by (simp add: GetPage_def)
next
  case None
  from assms obtain st1
    where E: "EvictIfNeeded (st\<lparr>miss_count := (miss_count st + 1) mod 2 ^ 64\<rparr>) = Inr st1"
    using EvictIfNeeded_total [of "st\<lparr>miss_count := (miss_count st + 1) mod 2 ^ 64\<rparr>"]
    by auto
  obtain st2 page where L: "LoadPageFromDisk st1 no psz = (st2, Some page)"
    using LoadPageFromDisk_Some by blast
  from GetPage_miss [OF None E L] show ?thesis by blast
qed

lemma read_page_total:
  assumes "index_recency_inv st"
  shows "\<exists>st' out. read_page st no psz (Some b) = Inr (st', out)"
proof -
  from GetPage_total [OF inv_subset [OF assms]] obtain st1 page
    where "GetPage st no psz = Inr (st1, Some page)" by blast
  then show ?thesis
    by (auto simp: read_page_def ReadAt_def Let_def)
qed

lemma write_page_total:
  assumes "index_recency_inv st"
  shows "\<exists>st'. write_page st no psz (Some b) = Inr st'"
proof -
  from GetPage_total [OF inv_subset [OF assms]] obtain st1 page
    where "GetPage st no psz = Inr (st1, Some page)" by blast
  then show ?thesis
    by (auto simp: write_page_def WriteAt_def Let_def)
qed

text \<open>
  A miss has room when the table is not full or some resident frame is unpinned: the walk then
  leaves the table below the capacity, and the insertion brings it to the capacity at most.
  A resident frame that is unpinned stays so over a read, a write and a flush, and a frame
  inserted by a miss is unpinned once its guard is released.
\<close>

lemma evictable_iff:
  "distinct (map fst (page_table st)) \<Longrightarrow>
     evictable st \<longleftrightarrow> (\<exists>k p. map_of (page_table st) k = Some p \<and> pin_count p = 0)"
  by (auto simp: evictable_def dest: map_of_SomeD)

lemma evictable_victim:
  assumes inv: "index_recency_inv st" and ev: "evictable st"
  shows "\<exists>pre pid post page. rev (lru_list st) = pre @ pid # post
           \<and> (\<forall>k \<in> set pre. pinned_at st k)
           \<and> map_of (page_table st) pid = Some page \<and> pin_count page = 0"
proof -
  from inv have d: "distinct (map fst (page_table st))"
    and keys: "set (lru_list st) = fst ` set (page_table st)"
    by (simp_all add: index_recency_inv_def)
  from ev d obtain k p where kp: "map_of (page_table st) k = Some p" "pin_count p = 0"
    by (auto simp: evictable_iff)
  then have "k \<in> fst ` set (page_table st)"
    by (metis map_of_eq_None_iff option.distinct(1))
  with keys have "k \<in> set (rev (lru_list st))" by simp
  moreover from kp have "\<not> pinned_at st k" by (simp add: pinned_at_def)
  ultimately have "\<exists>k \<in> set (rev (lru_list st)). \<not> pinned_at st k" ..
  then obtain pre pid post where split: "rev (lru_list st) = pre @ pid # post"
    and pre: "\<forall>k \<in> set pre. pinned_at st k" and pid: "\<not> pinned_at st pid"
    using split_list_first_prop [of "rev (lru_list st)" "\<lambda>k. \<not> pinned_at st k"] by auto
  from split have "pid \<in> set (lru_list st)"
    by (metis in_set_conv_decomp set_rev)
  with keys obtain page where look: "map_of (page_table st) pid = Some page"
    by (cases "map_of (page_table st) pid") (auto simp: map_of_eq_None_iff)
  with pid have "pin_count page = 0" by (simp add: pinned_at_def)
  with split pre look show ?thesis by blast
qed

lemma EvictIfNeeded_room:
  assumes inv: "index_recency_inv st" and len: "length (page_table st) \<le> capacity st"
    and room: "length (page_table st) < capacity st \<or> evictable st"
    and E: "EvictIfNeeded st = Inr st'"
  shows "length (page_table st') < capacity st' \<and> capacity st' = capacity st"
proof (cases "length (page_table st) < capacity st")
  case True
  with E show ?thesis by (simp add: EvictIfNeeded_def)
next
  case False
  with room have ev: "evictable st" by simp
  from evictable_victim [OF inv ev] obtain pre pid post page
    where split: "rev (lru_list st) = pre @ pid # post"
      and pre: "\<forall>k \<in> set pre. pinned_at st k"
      and look: "map_of (page_table st) pid = Some page" and pc: "pin_count page = 0"
    by blast
  obtain ok page' st1 where F: "FlushPage st page = (ok, page', st1)"
    by (metis prod_cases3)
  from evict_walk_victim [OF pre look pc, of post "[]"] E False split F
  have st': "st' = st1\<lparr>page_table := AList.delete pid (page_table st),
                       lru_list := rev post @ rev pre\<rparr>"
    by (simp add: EvictIfNeeded_def)
  from inv have d: "distinct (map fst (page_table st))" by (simp add: index_recency_inv_def)
  from look have key: "pid \<in> fst ` set (page_table st)"
    by (metis map_of_eq_None_iff option.distinct(1))
  from length_delete_distinct [OF d key] len
  have "length (AList.delete pid (page_table st)) < capacity st" by simp
  with st' FlushPage_fields [OF F] show ?thesis by simp
qed

lemma room_capacity:
  assumes "length (page_table st) \<le> capacity st"
    and "length (page_table st) < capacity st \<or> evictable st"
  shows "1 \<le> capacity st"
proof (cases "length (page_table st) < capacity st")
  case True
  then show ?thesis by simp
next
  case False
  with assms(2) have "page_table st \<noteq> []" by (auto simp: evictable_def)
  with assms(1) show ?thesis by (cases "page_table st") auto
qed

lemma GetPage_within:
  assumes inv: "index_recency_inv st" and len: "length (page_table st) \<le> capacity st"
    and ok: "map_of (page_table st) no \<noteq> None \<or> length (page_table st) < capacity st \<or> evictable st"
    and G: "GetPage st no psz = Inr (st', Some page)"
  shows "length (page_table st') \<le> capacity st' \<and> capacity st' = capacity st
         \<and> (map_of (page_table st) no = None \<longrightarrow> pin_count page = 0)
         \<and> (map_of (page_table st) no \<noteq> None \<longrightarrow>
               page_table st' = page_table st \<and> map_of (page_table st) no = Some page)"
proof (cases "map_of (page_table st) no")
  case (Some p)
  with G len show ?thesis
    by (auto simp: GetPage_def MoveToFront_def)
next
  case None
  let ?s = "st\<lparr>miss_count := (miss_count st + 1) mod 2 ^ 64\<rparr>"
  from G None obtain st1 where E: "EvictIfNeeded ?s = Inr st1"
    by (cases "EvictIfNeeded ?s") (auto simp: GetPage_def)
  obtain st2 page2 where L: "LoadPageFromDisk st1 no psz = (st2, Some page2)"
    using LoadPageFromDisk_Some by blast
  have "index_recency_inv ?s" "length (page_table ?s) \<le> capacity ?s"
    "length (page_table ?s) < capacity ?s \<or> evictable ?s"
    using inv len ok None by (simp_all add: index_recency_inv_def evictable_def)
  from EvictIfNeeded_room [OF this E]
  have room: "length (page_table st1) < capacity st1" and c1: "capacity st1 = capacity st"
    by simp_all
  from GetPage_miss [OF None E L] G
  have st': "st' = st2\<lparr>page_table := AList.update no page2 (page_table st1), lru_list := no # lru_list st1\<rparr>"
    and pg: "page = page2" by simp_all
  from LoadPageFromDisk_page [OF L] have pc: "pin_count page2 = 0" by simp
  have "length (AList.update no page2 (page_table st1)) \<le> Suc (length (page_table st1))"
    by (cases "no \<in> fst ` set (page_table st1)") (simp_all add: length_update_new length_update_old)
  with st' pg pc room c1 None LoadPageFromDisk_fields [OF L] show ?thesis by simp
qed

lemma update_resident_room:
  assumes inv: "index_recency_inv st" and look: "map_of (page_table st) no = Some p"
    and pin: "pin_count p = 0 \<longrightarrow> pin_count q = 0"
    and room: "length (page_table st) < capacity st \<or> evictable st"
  shows "length (AList.update no q (page_table st)) = length (page_table st)
         \<and> (length (page_table st) < capacity st
             \<or> evictable (st\<lparr>page_table := AList.update no q (page_table st)\<rparr>))"
proof -
  from look have key: "no \<in> fst ` set (page_table st)"
    by (metis map_of_eq_None_iff option.distinct(1))
  then have l: "length (AList.update no q (page_table st)) = length (page_table st)"
    by (rule length_update_old)
  let ?st = "st\<lparr>page_table := AList.update no q (page_table st)\<rparr>"
  from inv have d: "distinct (map fst (page_table st))" by (simp add: index_recency_inv_def)
  then have d': "distinct (map fst (page_table ?st))" by (simp add: distinct_update)
  have "evictable ?st" if ev: "evictable st"
  proof -
    from ev d obtain k r where kr: "map_of (page_table st) k = Some r" "pin_count r = 0"
      by (auto simp: evictable_iff)
    show ?thesis
    proof (cases "k = no")
      case True
      with kr look pin have "pin_count q = 0" by simp
      moreover have "map_of (page_table ?st) no = Some q" by (simp add: update_conv')
      ultimately show ?thesis using d' by (auto simp: evictable_iff)
    next
      case False
      with kr have "map_of (page_table ?st) k = Some r" by (simp add: update_conv')
      with kr(2) d' show ?thesis by (auto simp: evictable_iff)
    qed
  qed
  with l room show ?thesis by auto
qed

lemma evictable_resident:
  assumes "index_recency_inv st" and "map_of (page_table st) no = Some page" and "pin_count page = 0"
  shows "evictable st"
  using assms by (auto simp: evictable_iff index_recency_inv_def)

lemma GetPage_room:
  assumes inv: "index_recency_inv st" and len: "length (page_table st) \<le> capacity st"
    and room: "length (page_table st) < capacity st \<or> evictable st"
    and G: "GetPage st no psz = Inr (st1, Some page)"
  shows "length (page_table st1) < capacity st1 \<or> evictable st1"
proof (cases "map_of (page_table st) no")
  case None
  from room have ok: "map_of (page_table st) no \<noteq> None \<or> length (page_table st) < capacity st \<or> evictable st"
    by simp
  from GetPage_within [OF inv len ok G] None have "pin_count page = 0" by simp
  from evictable_resident [OF inv_GetPage [OF inv G] GetPage_resident [OF G] this] show ?thesis ..
next
  case (Some p)
  then have ok: "map_of (page_table st) no \<noteq> None \<or> length (page_table st) < capacity st \<or> evictable st"
    by simp
  from GetPage_within [OF inv len ok G] Some
  have "page_table st1 = page_table st" "capacity st1 = capacity st" by simp_all
  with room show ?thesis by (simp add: evictable_def)
qed

lemma read_page_within:
  assumes inv: "index_recency_inv st" and len: "length (page_table st) \<le> capacity st"
    and ok: "map_of (page_table st) no \<noteq> None \<or> length (page_table st) < capacity st \<or> evictable st"
    and R: "read_page st no psz buf = Inr (st', out)"
  shows "length (page_table st') \<le> capacity st' \<and> capacity st' = capacity st
         \<and> (length (page_table st) < capacity st \<or> evictable st \<longrightarrow>
              length (page_table st') < capacity st' \<or> evictable st')"
proof -
  from R obtain st1 page where G: "GetPage st no psz = Inr (st1, Some page)"
    by (auto simp: read_page_def split: sum.splits option.splits prod.splits dest: GetPage_Some)
  let ?q = "fst (unpin (pin page))"
  from R G have st': "st' = st1\<lparr>page_table := AList.update no ?q (page_table st1)\<rparr>"
    by (auto simp: read_page_def split: sum.splits)
  from GetPage_within [OF inv len ok G]
  have l1: "length (page_table st1) \<le> capacity st1" and c1: "capacity st1 = capacity st"
    by simp_all
  have i1: "index_recency_inv st1" using inv G by (rule inv_GetPage)
  have look: "map_of (page_table st1) no = Some page" using G by (rule GetPage_resident)
  then have key: "no \<in> fst ` set (page_table st1)"
    by (metis map_of_eq_None_iff option.distinct(1))
  have pin: "pin_count page = 0 \<longrightarrow> pin_count ?q = 0"
    by (simp add: unpin_pin_unpinned)
  have ll: "length (page_table st') = length (page_table st1)"
    by (simp add: st' length_update_old [OF key])
  have "length (page_table st') < capacity st' \<or> evictable st'"
    if room: "length (page_table st) < capacity st \<or> evictable st"
    using update_resident_room [OF i1 look pin GetPage_room [OF inv len room G]] ll
    by (auto simp: st')
  with ll l1 c1 show ?thesis by (simp add: st')
qed

lemma write_page_within:
  assumes inv: "index_recency_inv st" and len: "length (page_table st) \<le> capacity st"
    and ok: "map_of (page_table st) no \<noteq> None \<or> length (page_table st) < capacity st \<or> evictable st"
    and W: "write_page st no psz buf = Inr st'"
  shows "length (page_table st') \<le> capacity st' \<and> capacity st' = capacity st
         \<and> (length (page_table st) < capacity st \<or> evictable st \<longrightarrow>
              length (page_table st') < capacity st' \<or> evictable st')"
proof -
  from W obtain st1 page where G: "GetPage st no psz = Inr (st1, Some page)"
    by (auto simp: write_page_def split: sum.splits option.splits prod.splits dest: GetPage_Some)
  from W G obtain n page' where Wr: "WriteAt (pin page) 0 buf psz = Inr (n, page')"
    and st': "st' = st1\<lparr>page_table := AList.update no (fst (unpin page')) (page_table st1)\<rparr>"
    by (auto simp: write_page_def split: sum.splits)
  let ?q = "fst (unpin page')"
  from GetPage_within [OF inv len ok G]
  have l1: "length (page_table st1) \<le> capacity st1" and c1: "capacity st1 = capacity st"
    by simp_all
  have i1: "index_recency_inv st1" using inv G by (rule inv_GetPage)
  have look: "map_of (page_table st1) no = Some page" using G by (rule GetPage_resident)
  then have key: "no \<in> fst ` set (page_table st1)"
    by (metis map_of_eq_None_iff option.distinct(1))
  have pin: "pin_count page = 0 \<longrightarrow> pin_count ?q = 0"
    using Wr by (auto simp: WriteAt_def pin_def unpin_def Let_def split: option.splits if_splits)
  have ll: "length (page_table st') = length (page_table st1)"
    by (simp add: st' length_update_old [OF key])
  have "length (page_table st') < capacity st' \<or> evictable st'"
    if room: "length (page_table st) < capacity st \<or> evictable st"
    using update_resident_room [OF i1 look pin GetPage_room [OF inv len room G]] ll
    by (auto simp: st')
  with ll l1 c1 show ?thesis by (simp add: st')
qed

lemma FlushPage_pin:
  "FlushPage st page = (ok, page', st') \<Longrightarrow> pin_count page' = pin_count page"
  by (auto simp: FlushPage_def flush_to_fd_def Let_def split: if_splits prod.splits)

lemma FlushAll_within:
  "index_recency_inv st \<Longrightarrow>
     length (page_table (FlushAll st order)) = length (page_table st)
     \<and> capacity (FlushAll st order) = capacity st
     \<and> (length (page_table st) < capacity st \<or> evictable st \<longrightarrow>
          length (page_table (FlushAll st order)) < capacity (FlushAll st order)
          \<or> evictable (FlushAll st order))"
proof (induction order arbitrary: st)
  case Nil
  then show ?case by simp
next
  case (Cons pid order)
  show ?case
  proof (cases "map_of (page_table st) pid")
    case None
    with Cons.IH [OF Cons.prems] show ?thesis by auto
  next
    case (Some page)
    obtain ok page' st1 where F: "FlushPage st page = (ok, page', st1)"
      by (metis prod_cases3)
    let ?s = "st1\<lparr>page_table := AList.update pid page' (page_table st1)\<rparr>"
    from FlushPage_fields [OF F]
    have f: "page_table st1 = page_table st" "lru_list st1 = lru_list st" "capacity st1 = capacity st"
      by simp_all
    from Cons.prems f have i1: "index_recency_inv st1" by (simp add: index_recency_inv_def)
    from Some f have look: "map_of (page_table st1) pid = Some page" by simp
    then have key: "pid \<in> fst ` set (page_table st1)"
      by (metis map_of_eq_None_iff option.distinct(1))
    have i2: "index_recency_inv ?s" using i1 look by (rule inv_update_resident)
    have l2: "length (page_table ?s) = length (page_table st)" "capacity ?s = capacity st"
      using f key by (simp_all add: length_update_old)
    have r2: "length (page_table ?s) < capacity ?s \<or> evictable ?s"
      if room: "length (page_table st) < capacity st \<or> evictable st"
    proof -
      from room f have "length (page_table st1) < capacity st1 \<or> evictable st1"
        by (simp add: evictable_def)
      from update_resident_room [OF i1 look _ this, of page'] FlushPage_pin [OF F] l2 f
      show ?thesis by auto
    qed
    from Cons.IH [OF i2] l2 r2 Some F show ?thesis by auto
  qed
qed

subsection \<open>The two invariants over histories\<close>

text \<open>
  Claim C8. A freshly constructed pool satisfies \<open>index_recency_inv\<close>. In a pool that
  satisfies it, a page number is a key of the table exactly when it is in the list, where it
  occurs once; move-to-front of a resident page, eviction, \<open>GetPage\<close> (insertion included),
  \<open>read_page\<close>, \<open>write_page\<close> (both of which return), \<open>FlushAll\<close> and every history of
  operations keep it.
\<close>

theorem index_recency_bijection:
  "(\<forall>w r cfg st0. LRUBufferPool_new w r cfg = Inr st0 \<longrightarrow> index_recency_inv st0)
   \<and> (index_recency_inv st \<longrightarrow>
        (\<forall>k. (map_of (page_table st) k \<noteq> None) = (k \<in> set (lru_list st)))
      \<and> (\<forall>k \<in> set (lru_list st). count_list (lru_list st) k = 1)
      \<and> (\<forall>no. map_of (page_table st) no \<noteq> None \<longrightarrow> index_recency_inv (MoveToFront st no))
      \<and> (\<forall>st'. EvictIfNeeded st = Inr st' \<longrightarrow> index_recency_inv st')
      \<and> (\<forall>no psz st' h. GetPage st no psz = Inr (st', h) \<longrightarrow> index_recency_inv st')
      \<and> (\<forall>no psz b. \<exists>st' out. read_page st no psz (Some b) = Inr (st', out) \<and> index_recency_inv st')
      \<and> (\<forall>no psz b. \<exists>st'. write_page st no psz (Some b) = Inr st' \<and> index_recency_inv st')
      \<and> (\<forall>order. index_recency_inv (FlushAll st order))
      \<and> (\<forall>ops st'. run st ops = Inr st' \<longrightarrow> index_recency_inv st'))"
proof (intro conjI impI allI ballI)
  fix w r cfg st0
  assume "LRUBufferPool_new w r cfg = Inr st0"
  then show "index_recency_inv st0" by (rule inv_new)
next
  fix k
  assume "index_recency_inv st"
  then show "(map_of (page_table st) k \<noteq> None) = (k \<in> set (lru_list st))"
    by (simp add: index_recency_inv_def map_of_eq_None_iff)
next
  fix k
  assume "index_recency_inv st" and "k \<in> set (lru_list st)"
  then show "count_list (lru_list st) k = 1"
    by (simp add: index_recency_inv_def count_list_distinct)
next
  fix no
  assume "index_recency_inv st" and "map_of (page_table st) no \<noteq> None"
  then show "index_recency_inv (MoveToFront st no)"
    by (simp add: inv_MoveToFront map_of_eq_None_iff)
next
  fix st'
  assume "index_recency_inv st" and "EvictIfNeeded st = Inr st'"
  then show "index_recency_inv st'" by (rule inv_EvictIfNeeded)
next
  fix no psz st' h
  assume "index_recency_inv st" and "GetPage st no psz = Inr (st', h)"
  then show "index_recency_inv st'" by (rule inv_GetPage)
next
  fix no psz b
  assume i: "index_recency_inv st"
  from read_page_total [OF i] obtain st' out where "read_page st no psz (Some b) = Inr (st', out)"
    by blast
  with inv_read_page [OF i this]
  show "\<exists>st' out. read_page st no psz (Some b) = Inr (st', out) \<and> index_recency_inv st'"
    by blast
next
  fix no psz b
  assume i: "index_recency_inv st"
  from write_page_total [OF i] obtain st' where "write_page st no psz (Some b) = Inr st'"
    by blast
  with inv_write_page [OF i this]
  show "\<exists>st'. write_page st no psz (Some b) = Inr st' \<and> index_recency_inv st'"
    by blast
next
  fix order
  assume "index_recency_inv st"
  then show "index_recency_inv (FlushAll st order)" by (rule inv_FlushAll)
next
  fix ops st'
  assume "index_recency_inv st" and "run st ops = Inr st'"
  then show "index_recency_inv st'" by (rule inv_run)
qed

lemma run_example:
  "run pool_cap1 [WritePage 1 4 (Some [1, 2, 3, 4]), WritePage 0 4 (Some [5, 6, 7, 8]),
                  ReadPage 1 4 (Some [0, 0, 0, 0]), ReadPage 1 4 (Some [0, 0, 0, 0])]
     = Inr \<lparr>fd = 3, capacity = 1, pool_page_size = 4,
            page_table = [(1, (Page_new 1 4)\<lparr>data := [1, 2, 3, 4], loaded := True\<rparr>)],
            lru_list = [1], hit_count = 1, miss_count = 3,
            disk = \<lparr>contents = [5, 6, 7, 8, 1, 2, 3, 4], events = []\<rparr>, cerr = []\<rparr>"
  by (simp add: pool_cap1_def pool_eval)

theorem index_recency_bijection_witness:
  "LRUBufferPool_new \<lparr>contents = [], events = []\<rparr> 3 [(4, 1)] = Inr pool_cap1
   \<and> index_recency_inv pool_cap1
   \<and> index_recency_inv (projr (run pool_cap1
         [WritePage 1 4 (Some [1, 2, 3, 4]), WritePage 0 4 (Some [5, 6, 7, 8]),
          ReadPage 1 4 (Some [0, 0, 0, 0]), ReadPage 1 4 (Some [0, 0, 0, 0])]))
   \<and> lru_list (projr (run pool_cap1
         [WritePage 1 4 (Some [1, 2, 3, 4]), WritePage 0 4 (Some [5, 6, 7, 8]),
          ReadPage 1 4 (Some [0, 0, 0, 0]), ReadPage 1 4 (Some [0, 0, 0, 0])])) = [1]"
proof -
  have new: "LRUBufferPool_new \<lparr>contents = [], events = []\<rparr> 3 [(4, 1)] = Inr pool_cap1"
    by (simp add: LRUBufferPool_new_def pool_cap1_def)
  from index_recency_bijection [of pool_cap1, THEN conjunct1, rule_format, OF new]
  have h: "index_recency_inv pool_cap1" .
  from index_recency_bijection [of pool_cap1, THEN conjunct2, THEN mp, OF h]
  have "\<forall>ops st'. run pool_cap1 ops = Inr st' \<longrightarrow> index_recency_inv st'"
    by (elim conjE)
  from this [rule_format, OF run_example] new h show ?thesis
    unfolding run_example by simp
qed

lemma step_within:
  assumes inv: "index_recency_inv st" and len: "length (page_table st) \<le> capacity st"
    and room: "length (page_table st) < capacity st \<or> evictable st"
    and s: "step st x = Inr st'"
  shows "index_recency_inv st' \<and> length (page_table st') \<le> capacity st'
         \<and> capacity st' = capacity st
         \<and> (length (page_table st') < capacity st' \<or> evictable st')"
proof (cases x)
  case (ReadPage no psz buf)
  with s obtain out where R: "read_page st no psz buf = Inr (st', out)"
    by (auto split: sum.splits)
  from room have "map_of (page_table st) no \<noteq> None \<or> length (page_table st) < capacity st \<or> evictable st"
    by simp
  from read_page_within [OF inv len this R] room inv_read_page [OF inv R] show ?thesis by auto
next
  case (WritePage no psz buf)
  with s have W: "write_page st no psz buf = Inr st'" by simp
  from room have "map_of (page_table st) no \<noteq> None \<or> length (page_table st) < capacity st \<or> evictable st"
    by simp
  from write_page_within [OF inv len this W] room inv_write_page [OF inv W] show ?thesis by auto
next
  case (FlushAllOp order)
  with s have "st' = FlushAll st order" by simp
  with FlushAll_within [OF inv, of order] inv_FlushAll [OF inv, of order] len room show ?thesis
    by auto
qed

lemma run_within:
  "index_recency_inv st \<Longrightarrow> length (page_table st) \<le> capacity st \<Longrightarrow>
   length (page_table st) < capacity st \<or> evictable st \<Longrightarrow> run st xs = Inr st' \<Longrightarrow>
     length (page_table st') \<le> capacity st' \<and> capacity st' = capacity st
     \<and> (length (page_table st') < capacity st' \<or> evictable st')"
proof (induction xs arbitrary: st)
  case Nil
  then show ?case by simp
next
  case (Cons x xs)
  from Cons.prems(4) obtain st1 where s: "step st x = Inr st1" and r: "run st1 xs = Inr st'"
    by (auto split: sum.splits)
  from step_within [OF Cons.prems(1-3) s]
  have h: "index_recency_inv st1" "length (page_table st1) \<le> capacity st1"
    "length (page_table st1) < capacity st1 \<or> evictable st1" "capacity st1 = capacity st"
    by blast+
  from Cons.IH [OF h(1-3) r] h(4) show ?case by auto
qed

text \<open>
  Claim C4. A freshly constructed pool has consistent Index and Recency and an empty table,
  which is within the capacity; it has room for a miss exactly when its capacity is at
  least 1. From a state with consistent Index and Recency whose table is within the capacity:
  a read or a write returns and leaves the table within the capacity when the page is
  resident, or the table is not full, or some resident frame is unpinned; \<open>flush_all\<close> leaves
  the table within the capacity; and when the table is not full or some resident frame is
  unpinned, the capacity is at least 1 and every history of reads, writes and flushes ends
  within the capacity, again with the table not full or some resident frame unpinned. Other
  frames may be pinned throughout. The capacity never changes.
\<close>

theorem bounded_residency:
  "(\<forall>w r cfg st0. LRUBufferPool_new w r cfg = Inr st0 \<longrightarrow>
       index_recency_inv st0 \<and> length (page_table st0) \<le> capacity st0
       \<and> ((length (page_table st0) < capacity st0 \<or> evictable st0) = (1 \<le> capacity st0)))
   \<and> (index_recency_inv st \<and> length (page_table st) \<le> capacity st \<longrightarrow>
        (\<forall>no psz b.
            map_of (page_table st) no \<noteq> None \<or> length (page_table st) < capacity st
              \<or> evictable st \<longrightarrow>
            (\<exists>st' out. read_page st no psz (Some b) = Inr (st', out)
               \<and> length (page_table st') \<le> capacity st' \<and> capacity st' = capacity st))
      \<and> (\<forall>no psz b.
            map_of (page_table st) no \<noteq> None \<or> length (page_table st) < capacity st
              \<or> evictable st \<longrightarrow>
            (\<exists>st'. write_page st no psz (Some b) = Inr st'
               \<and> length (page_table st') \<le> capacity st' \<and> capacity st' = capacity st))
      \<and> (\<forall>order. length (page_table (FlushAll st order)) \<le> capacity (FlushAll st order)
            \<and> capacity (FlushAll st order) = capacity st)
      \<and> (length (page_table st) < capacity st \<or> evictable st \<longrightarrow>
            1 \<le> capacity st
            \<and> (\<forall>ops st'. run st ops = Inr st' \<longrightarrow>
                  length (page_table st') \<le> capacity st' \<and> capacity st' = capacity st
                  \<and> (length (page_table st') < capacity st' \<or> evictable st'))))"
proof (rule conjI)
  show "\<forall>w r cfg st0. LRUBufferPool_new w r cfg = Inr st0 \<longrightarrow>
       index_recency_inv st0 \<and> length (page_table st0) \<le> capacity st0
       \<and> ((length (page_table st0) < capacity st0 \<or> evictable st0) = (1 \<le> capacity st0))"
  proof (intro allI impI)
    fix w :: os and r cfg st0
    assume n: "LRUBufferPool_new w r cfg = Inr st0"
    then have "page_table st0 = []"
      by (auto simp: LRUBufferPool_new_def split: if_splits list.splits prod.splits)
    with inv_new [OF n]
    show "index_recency_inv st0 \<and> length (page_table st0) \<le> capacity st0
       \<and> ((length (page_table st0) < capacity st0 \<or> evictable st0) = (1 \<le> capacity st0))"
      by (auto simp: evictable_def)
  qed
next
  show "index_recency_inv st \<and> length (page_table st) \<le> capacity st \<longrightarrow>
        (\<forall>no psz b.
            map_of (page_table st) no \<noteq> None \<or> length (page_table st) < capacity st
              \<or> evictable st \<longrightarrow>
            (\<exists>st' out. read_page st no psz (Some b) = Inr (st', out)
               \<and> length (page_table st') \<le> capacity st' \<and> capacity st' = capacity st))
      \<and> (\<forall>no psz b.
            map_of (page_table st) no \<noteq> None \<or> length (page_table st) < capacity st
              \<or> evictable st \<longrightarrow>
            (\<exists>st'. write_page st no psz (Some b) = Inr st'
               \<and> length (page_table st') \<le> capacity st' \<and> capacity st' = capacity st))
      \<and> (\<forall>order. length (page_table (FlushAll st order)) \<le> capacity (FlushAll st order)
            \<and> capacity (FlushAll st order) = capacity st)
      \<and> (length (page_table st) < capacity st \<or> evictable st \<longrightarrow>
            1 \<le> capacity st
            \<and> (\<forall>ops st'. run st ops = Inr st' \<longrightarrow>
                  length (page_table st') \<le> capacity st' \<and> capacity st' = capacity st
                  \<and> (length (page_table st') < capacity st' \<or> evictable st')))"
  proof (rule impI)
    assume a: "index_recency_inv st \<and> length (page_table st) \<le> capacity st"
    then have inv: "index_recency_inv st" and len: "length (page_table st) \<le> capacity st"
      by simp_all
    have R: "\<forall>no psz b.
            map_of (page_table st) no \<noteq> None \<or> length (page_table st) < capacity st
              \<or> evictable st \<longrightarrow>
            (\<exists>st' out. read_page st no psz (Some b) = Inr (st', out)
               \<and> length (page_table st') \<le> capacity st' \<and> capacity st' = capacity st)"
    proof (intro allI impI)
      fix no psz b
      assume ok: "map_of (page_table st) no \<noteq> None \<or> length (page_table st) < capacity st
              \<or> evictable st"
      from read_page_total [OF inv, of no psz b] obtain st' out
        where r: "read_page st no psz (Some b) = Inr (st', out)" by blast
      from read_page_within [OF inv len ok r]
      have "length (page_table st') \<le> capacity st'" "capacity st' = capacity st" by simp_all
      with r show "\<exists>st' out. read_page st no psz (Some b) = Inr (st', out)
               \<and> length (page_table st') \<le> capacity st' \<and> capacity st' = capacity st"
        by simp
    qed
    have W: "\<forall>no psz b.
            map_of (page_table st) no \<noteq> None \<or> length (page_table st) < capacity st
              \<or> evictable st \<longrightarrow>
            (\<exists>st'. write_page st no psz (Some b) = Inr st'
               \<and> length (page_table st') \<le> capacity st' \<and> capacity st' = capacity st)"
    proof (intro allI impI)
      fix no psz b
      assume ok: "map_of (page_table st) no \<noteq> None \<or> length (page_table st) < capacity st
              \<or> evictable st"
      from write_page_total [OF inv, of no psz b] obtain st'
        where w: "write_page st no psz (Some b) = Inr st'" by blast
      from write_page_within [OF inv len ok w]
      have "length (page_table st') \<le> capacity st'" "capacity st' = capacity st" by simp_all
      with w show "\<exists>st'. write_page st no psz (Some b) = Inr st'
               \<and> length (page_table st') \<le> capacity st' \<and> capacity st' = capacity st"
        by simp
    qed
    have F: "\<forall>order. length (page_table (FlushAll st order)) \<le> capacity (FlushAll st order)
            \<and> capacity (FlushAll st order) = capacity st"
    proof (intro allI)
      fix order
      from FlushAll_within [OF inv, of order] len
      show "length (page_table (FlushAll st order)) \<le> capacity (FlushAll st order)
            \<and> capacity (FlushAll st order) = capacity st"
        by simp
    qed
    have U: "length (page_table st) < capacity st \<or> evictable st \<longrightarrow>
            1 \<le> capacity st
            \<and> (\<forall>ops st'. run st ops = Inr st' \<longrightarrow>
                  length (page_table st') \<le> capacity st' \<and> capacity st' = capacity st
                  \<and> (length (page_table st') < capacity st' \<or> evictable st'))"
    proof (intro impI conjI allI)
      assume room: "length (page_table st) < capacity st \<or> evictable st"
      from room_capacity [OF len room] show "1 \<le> capacity st" .
    next
      fix ops st'
      assume room: "length (page_table st) < capacity st \<or> evictable st"
        and r: "run st ops = Inr st'"
      from run_within [OF inv len room r]
      show "length (page_table st') \<le> capacity st'" "capacity st' = capacity st"
        "length (page_table st') < capacity st' \<or> evictable st'"
        by blast+
    qed
    show "(\<forall>no psz b.
            map_of (page_table st) no \<noteq> None \<or> length (page_table st) < capacity st
              \<or> evictable st \<longrightarrow>
            (\<exists>st' out. read_page st no psz (Some b) = Inr (st', out)
               \<and> length (page_table st') \<le> capacity st' \<and> capacity st' = capacity st))
      \<and> (\<forall>no psz b.
            map_of (page_table st) no \<noteq> None \<or> length (page_table st) < capacity st
              \<or> evictable st \<longrightarrow>
            (\<exists>st'. write_page st no psz (Some b) = Inr st'
               \<and> length (page_table st') \<le> capacity st' \<and> capacity st' = capacity st))
      \<and> (\<forall>order. length (page_table (FlushAll st order)) \<le> capacity (FlushAll st order)
            \<and> capacity (FlushAll st order) = capacity st)
      \<and> (length (page_table st) < capacity st \<or> evictable st \<longrightarrow>
            1 \<le> capacity st
            \<and> (\<forall>ops st'. run st ops = Inr st' \<longrightarrow>
                  length (page_table st') \<le> capacity st' \<and> capacity st' = capacity st
                  \<and> (length (page_table st') < capacity st' \<or> evictable st')))"
      using R W F U by (intro conjI)
  qed
qed

theorem bounded_residency_witness:
  "index_recency_inv pool_part_pinned
   \<and> length (page_table pool_part_pinned) = capacity pool_part_pinned
   \<and> map (\<lambda>(k, p). pin_count p) (page_table pool_part_pinned) = [1, 0]
   \<and> evictable pool_part_pinned
   \<and> read_page pool_part_pinned 2 4 (Some [9, 9, 9, 9]) =
       Inr (\<lparr>fd = 3, capacity = 2, pool_page_size = 4,
             page_table = [(0, pin ((Page_new 0 4)\<lparr>loaded := True\<rparr>)),
                           (2, (Page_new 2 4)\<lparr>loaded := True\<rparr>)],
             lru_list = [2, 0], hit_count = 0, miss_count = 3,
             disk = \<lparr>contents = [], events = []\<rparr>, cerr = []\<rparr>,
            Some [0, 0, 0, 0])
   \<and> length (page_table (fst (projr (read_page pool_part_pinned 2 4 (Some [9, 9, 9, 9])))))
       \<le> capacity (fst (projr (read_page pool_part_pinned 2 4 (Some [9, 9, 9, 9]))))
   \<and> LRUBufferPool_new \<lparr>contents = [], events = []\<rparr> 3 [(4, 1)] = Inr pool_cap1
   \<and> length (page_table (projr (run pool_cap1
         [WritePage 1 4 (Some [1, 2, 3, 4]), WritePage 0 4 (Some [5, 6, 7, 8]),
          ReadPage 1 4 (Some [0, 0, 0, 0]), ReadPage 1 4 (Some [0, 0, 0, 0])])))
       \<le> capacity (projr (run pool_cap1
         [WritePage 1 4 (Some [1, 2, 3, 4]), WritePage 0 4 (Some [5, 6, 7, 8]),
          ReadPage 1 4 (Some [0, 0, 0, 0]), ReadPage 1 4 (Some [0, 0, 0, 0])]))"
proof -
  have i: "index_recency_inv pool_part_pinned"
    by (auto simp: pool_part_pinned_def index_recency_inv_def)
  have l: "length (page_table pool_part_pinned) = capacity pool_part_pinned"
    by (simp add: pool_part_pinned_def)
  have p: "map (\<lambda>(k, p). pin_count p) (page_table pool_part_pinned) = [1, 0]"
    by (simp add: pool_part_pinned_def pin_def Page_new_def)
  have e: "evictable pool_part_pinned"
    by (simp add: pool_part_pinned_def evictable_def Page_new_def)
  have rd: "read_page pool_part_pinned 2 4 (Some [9, 9, 9, 9]) =
       Inr (\<lparr>fd = 3, capacity = 2, pool_page_size = 4,
             page_table = [(0, pin ((Page_new 0 4)\<lparr>loaded := True\<rparr>)),
                           (2, (Page_new 2 4)\<lparr>loaded := True\<rparr>)],
             lru_list = [2, 0], hit_count = 0, miss_count = 3,
             disk = \<lparr>contents = [], events = []\<rparr>, cerr = []\<rparr>,
            Some [0, 0, 0, 0])"
    by (simp add: pool_part_pinned_def pool_eval replicate_4)
  from l have le: "length (page_table pool_part_pinned) \<le> capacity pool_part_pinned" by simp
  from bounded_residency [of pool_part_pinned, THEN conjunct2, THEN mp, OF conjI, OF i le]
  have "\<forall>no psz b.
            map_of (page_table pool_part_pinned) no \<noteq> None
              \<or> length (page_table pool_part_pinned) < capacity pool_part_pinned
              \<or> evictable pool_part_pinned \<longrightarrow>
            (\<exists>st' out. read_page pool_part_pinned no psz (Some b) = Inr (st', out)
               \<and> length (page_table st') \<le> capacity st'
               \<and> capacity st' = capacity pool_part_pinned)"
    by (elim conjE)
  from this [rule_format, of 2 4 "[9, 9, 9, 9]"] e
  have b1: "length (page_table (fst (projr (read_page pool_part_pinned 2 4 (Some [9, 9, 9, 9])))))
       \<le> capacity (fst (projr (read_page pool_part_pinned 2 4 (Some [9, 9, 9, 9]))))"
    by auto
  have new: "LRUBufferPool_new \<lparr>contents = [], events = []\<rparr> 3 [(4, 1)] = Inr pool_cap1"
    by (simp add: LRUBufferPool_new_def pool_cap1_def)
  from bounded_residency [of pool_cap1, THEN conjunct1, rule_format, OF new]
  have h: "index_recency_inv pool_cap1" "length (page_table pool_cap1) \<le> capacity pool_cap1"
    "length (page_table pool_cap1) < capacity pool_cap1 \<or> evictable pool_cap1"
    by (simp_all add: pool_cap1_def)
  from bounded_residency [of pool_cap1, THEN conjunct2, THEN mp, OF conjI, OF h(1,2)]
  have "length (page_table pool_cap1) < capacity pool_cap1 \<or> evictable pool_cap1 \<longrightarrow>
            1 \<le> capacity pool_cap1
            \<and> (\<forall>ops st'. run pool_cap1 ops = Inr st' \<longrightarrow>
                  length (page_table st') \<le> capacity st' \<and> capacity st' = capacity pool_cap1
                  \<and> (length (page_table st') < capacity st' \<or> evictable st'))"
    by (elim conjE)
  from this [THEN mp, OF h(3), THEN conjunct2, rule_format, OF run_example]
  have b2: "length (page_table (projr (run pool_cap1
         [WritePage 1 4 (Some [1, 2, 3, 4]), WritePage 0 4 (Some [5, 6, 7, 8]),
          ReadPage 1 4 (Some [0, 0, 0, 0]), ReadPage 1 4 (Some [0, 0, 0, 0])])))
       \<le> capacity (projr (run pool_cap1
         [WritePage 1 4 (Some [1, 2, 3, 4]), WritePage 0 4 (Some [5, 6, 7, 8]),
          ReadPage 1 4 (Some [0, 0, 0, 0]), ReadPage 1 4 (Some [0, 0, 0, 0])]))"
    unfolding run_example by simp
  show ?thesis
    by (intro conjI) (rule i, rule l, rule p, rule e, rule rd, rule b1, rule new, rule b2)
qed

text \<open>
  Claim C4 as stated fails outside these hypotheses. With capacity 0, which the constructor
  accepts, the first write ends with one resident frame. With capacity 1 and the only frame
  pinned, the read of another page ends with two resident frames. A table over its capacity
  stays over it: when the reader of page 0 then releases its pin the pool is \<open>pool_over\<close>,
  with capacity 1, two resident frames and none pinned, and the read of a third page evicts one
  frame, inserts one and ends with two resident frames again.
\<close>

theorem residency_bound_counterexample:
  "LRUBufferPool_new \<lparr>contents = [], events = []\<rparr> 3 [(4, 0)] = Inr pool_cap0
   \<and> write_page pool_cap0 0 4 (Some [1, 2, 3, 4]) =
       Inr \<lparr>fd = 3, capacity = 0, pool_page_size = 4,
            page_table = [(0, (Page_new 0 4)\<lparr>data := [1, 2, 3, 4], dirty := True, loaded := True\<rparr>)],
            lru_list = [0], hit_count = 0, miss_count = 1,
            disk = \<lparr>contents = [], events = []\<rparr>, cerr = [AllPinnedWarning]\<rparr>
   \<and> read_page pool_pinned 1 4 (Some [9, 9, 9, 9]) =
       Inr (\<lparr>fd = 3, capacity = 1, pool_page_size = 4,
             page_table = [(0, pin ((Page_new 0 4)\<lparr>loaded := True\<rparr>)),
                           (1, (Page_new 1 4)\<lparr>loaded := True\<rparr>)],
             lru_list = [1, 0], hit_count = 0, miss_count = 2,
             disk = \<lparr>contents = [], events = []\<rparr>, cerr = [AllPinnedWarning]\<rparr>,
            Some [0, 0, 0, 0])
   \<and> (fst (projr (read_page pool_pinned 1 4 (Some [9, 9, 9, 9]))))
        \<lparr>page_table := AList.update 0 (fst (unpin (pin ((Page_new 0 4)\<lparr>loaded := True\<rparr>))))
           (page_table (fst (projr (read_page pool_pinned 1 4 (Some [9, 9, 9, 9])))))\<rparr>
       = pool_over
   \<and> read_page pool_over 2 4 (Some [9, 9, 9, 9]) =
       Inr (\<lparr>fd = 3, capacity = 1, pool_page_size = 4,
             page_table = [(1, (Page_new 1 4)\<lparr>loaded := True\<rparr>),
                           (2, (Page_new 2 4)\<lparr>loaded := True\<rparr>)],
             lru_list = [2, 1], hit_count = 0, miss_count = 3,
             disk = \<lparr>contents = [], events = []\<rparr>, cerr = [AllPinnedWarning]\<rparr>,
            Some [0, 0, 0, 0])"
  by (simp add: LRUBufferPool_new_def pool_cap0_def pool_pinned_def pool_over_def pool_eval
        replicate_4)

subsection \<open>A miss while every frame is pinned\<close>

text \<open>
  Claim C3, as the code has it. When a page that is not resident is requested while every
  resident frame is pinned, nothing is evicted and every resident frame stays as it is, but
  the request does not fail: the page is loaded, inserted in the table, which grows by one
  entry, and put at the front of the list; the warning is logged when the table was full.
  The same request again is a hit on that frame.
\<close>

theorem GetPage_all_pinned_inserts:
  assumes miss: "map_of (page_table st) no = None"
    and inv: "index_recency_inv st"
    and pinned: "\<forall>(k, p) \<in> set (page_table st). pin_count p \<noteq> 0"
  shows "\<exists>st' page. GetPage st no psz = Inr (st', Some page)
           \<and> page_table st' = AList.update no page (page_table st)
           \<and> length (page_table st') = Suc (length (page_table st))
           \<and> (\<forall>k. k \<noteq> no \<longrightarrow> map_of (page_table st') k = map_of (page_table st) k)
           \<and> map_of (page_table st') no = Some page
           \<and> lru_list st' = no # lru_list st
           \<and> cerr st' = (if length (page_table st) < capacity st then cerr st
                         else cerr st @ [AllPinnedWarning])
           \<and> (\<exists>st''. GetPage st' no psz = Inr (st'', Some page)
                 \<and> hit_count st'' = (hit_count st + 1) mod 2 ^ 64
                 \<and> miss_count st'' = (miss_count st + 1) mod 2 ^ 64
                 \<and> page_table st'' = page_table st')"
proof -
  let ?s = "st\<lparr>miss_count := (miss_count st + 1) mod 2 ^ 64\<rparr>"
  let ?st1 = "if length (page_table st) < capacity st then ?s
              else ?s\<lparr>cerr := cerr st @ [AllPinnedWarning]\<rparr>"
  have all: "\<forall>k \<in> set (rev (lru_list ?s)). pinned_at ?s k"
  proof
    fix k
    assume "k \<in> set (rev (lru_list ?s))"
    with inv have "k \<in> fst ` set (page_table st)"
      by (simp add: index_recency_inv_def)
    then obtain p where "map_of (page_table st) k = Some p"
      by (cases "map_of (page_table st) k") (auto simp: map_of_eq_None_iff)
    with pinned show "pinned_at ?s k"
      by (auto simp: pinned_at_def dest!: map_of_SomeD)
  qed
  have E: "EvictIfNeeded ?s = Inr ?st1"
    using evict_walk_all_pinned [OF all, of "[]"] by (simp add: EvictIfNeeded_def)
  obtain st2 page where L: "LoadPageFromDisk ?st1 no psz = (st2, Some page)"
    using LoadPageFromDisk_Some by blast
  let ?st' = "st2\<lparr>page_table := AList.update no page (page_table ?st1),
                   lru_list := no # lru_list ?st1\<rparr>"
  have G: "GetPage st no psz = Inr (?st', Some page)"
    by (rule GetPage_miss [OF miss E L])
  from miss have nk: "no \<notin> fst ` set (page_table st)"
    by (simp add: map_of_eq_None_iff)
  have f: "hit_count st2 = hit_count st" "miss_count st2 = (miss_count st + 1) mod 2 ^ 64"
    "cerr st2 = cerr ?st1"
    using LoadPageFromDisk_fields [OF L] LoadPageFromDisk_cerr [OF L] by (simp_all split: if_splits)
  have G2: "GetPage ?st' no psz =
      Inr (MoveToFront (?st'\<lparr>hit_count := (hit_count ?st' + 1) mod 2 ^ 64\<rparr>) no, Some page)"
    by (simp add: GetPage_def update_conv')
  show ?thesis
    apply (rule exI [of _ ?st'], rule exI [of _ page])
    apply (intro conjI)
           apply (rule G)
          apply simp
         apply (simp add: length_update_new [OF nk])
        apply (simp add: update_conv')
       apply (simp add: update_conv')
      apply simp
     apply (simp add: f)
    apply (rule exI [of _ "MoveToFront (?st'\<lparr>hit_count := (hit_count ?st' + 1) mod 2 ^ 64\<rparr>) no"])
    apply (simp only: G2)
    apply (simp add: MoveToFront_def f)
    done
qed

text \<open>
  Claim C3 as stated fails: with capacity 1 and the only frame pinned, the miss on page 1
  returns a frame and leaves two entries in the table and the list.
\<close>

theorem all_pinned_counterexample:
  "GetPage pool_pinned 1 4 =
     Inr (\<lparr>fd = 3, capacity = 1, pool_page_size = 4,
           page_table = [(0, pin ((Page_new 0 4)\<lparr>loaded := True\<rparr>)),
                         (1, (Page_new 1 4)\<lparr>loaded := True\<rparr>)],
           lru_list = [1, 0], hit_count = 0, miss_count = 2,
           disk = \<lparr>contents = [], events = []\<rparr>, cerr = [AllPinnedWarning]\<rparr>,
          Some ((Page_new 1 4)\<lparr>loaded := True\<rparr>))"
  by (simp add: pool_pinned_def pool_eval)

theorem GetPage_all_pinned_inserts_witness:
  "map_of (page_table pool_pinned) 1 = None \<and> index_recency_inv pool_pinned
   \<and> map (\<lambda>(k, p). pin_count p) (page_table pool_pinned) = [1]
   \<and> (\<exists>st' page. GetPage pool_pinned 1 4 = Inr (st', Some page)
         \<and> length (page_table st') = 2 \<and> lru_list st' = [1, 0])"
proof -
  have 1: "map_of (page_table pool_pinned) 1 = None"
    by (simp add: pool_pinned_def)
  have 2: "index_recency_inv pool_pinned"
    by (simp add: pool_pinned_def index_recency_inv_def)
  have 3: "\<forall>(k, p) \<in> set (page_table pool_pinned). pin_count p \<noteq> 0"
    by (simp add: pool_pinned_def pin_def Page_new_def)
  from GetPage_all_pinned_inserts [OF 1 2 3, of 4] obtain st' page
    where "GetPage pool_pinned 1 4 = Inr (st', Some page)"
      "length (page_table st') = Suc (length (page_table pool_pinned))"
      "lru_list st' = 1 # lru_list pool_pinned"
    by blast
  moreover have "length (page_table pool_pinned) = 1" "lru_list pool_pinned = [0]"
    by (simp_all add: pool_pinned_def)
  moreover have "map (\<lambda>(k, p). pin_count p) (page_table pool_pinned) = [1]"
    by (simp add: pool_pinned_def pin_def Page_new_def)
  ultimately show ?thesis using 1 2 by simp
qed

subsection \<open>The file as the read and write loops see it\<close>

lemma off_t_mul_exact: "a * b < 2 ^ 63 \<Longrightarrow> off_t_mul a b = int (a * b)"
proof -
  assume "a * b < 2 ^ 63"
  then have "int a * int b < 2 ^ 63"
    by (metis of_nat_mult of_nat_less_iff of_nat_numeral of_nat_power)
  moreover have "0 \<le> int a * int b" by simp
  ultimately show ?thesis
    by (simp add: off_t_mul_def to_off_t_def)
qed

lemma byte_at_write_bytes:
  "byte_at (write_bytes f off bs) i =
     (if off \<le> i \<and> i < off + length bs then bs ! (i - off) else byte_at f i)"
proof (cases "bs = []")
  case True
  then show ?thesis by (auto simp: write_bytes_def)
next
  case False
  then show ?thesis
    by (auto simp: write_bytes_def byte_at_def Let_def nth_append min_def)
qed

lemma length_read_range [simp]: "length (read_range f off n) = n"
  by (simp add: read_range_def)

lemma nth_read_range: "j < n \<Longrightarrow> read_range f off n ! j = byte_at f (off + j)"
  by (simp add: read_range_def)

lemma nth_take_drop_byte_at:
  "j < length (take m (drop off f)) \<Longrightarrow> take m (drop off f) ! j = byte_at f (off + j)"
  by (auto simp: byte_at_def)

lemma pread_os:
  "pread w count off = (r, w') \<Longrightarrow> contents w' = contents w \<and> set (events w') \<subseteq> set (events w)"
  by (auto simp: pread_def next_event_def Let_def split: list.splits if_splits)

lemma pread_Inl:
  "pread w count off = (Inl e, w') \<Longrightarrow> IoFail \<notin> set (events w) \<Longrightarrow> 0 \<le> off \<Longrightarrow> e = EINTR"
  by (auto simp: pread_def next_event_def Let_def split: list.splits if_splits)

lemma xfer_pos: "ev \<noteq> IoEINTR \<Longrightarrow> ev \<noteq> IoFail \<Longrightarrow> 0 < count \<Longrightarrow> 0 < xfer ev count \<and> xfer ev count \<le> count"
  by (cases ev) auto

lemma pread_Inr:
  assumes "pread w count off = (Inr bs, w')" and "0 \<le> off" and "0 < count"
  shows "length bs \<le> count
         \<and> (\<forall>j < length bs. bs ! j = byte_at (contents w) (nat off + j))
         \<and> (bs = [] \<longrightarrow> length (contents w) \<le> nat off)"
proof -
  obtain ev evs where ne: "next_event (events w) = (ev, evs)"
    by (cases "next_event (events w)")
  from assms ne have ev: "ev \<noteq> IoEINTR" "ev \<noteq> IoFail"
    and bs: "bs = take (xfer ev count) (drop (nat off) (contents w))"
    by (auto simp: pread_def Let_def split: if_splits)
  from xfer_pos [OF ev assms(3)] have x: "0 < xfer ev count" "xfer ev count \<le> count" by simp_all
  have "length bs \<le> count" using bs x by simp
  moreover have "\<forall>j < length bs. bs ! j = byte_at (contents w) (nat off + j)"
    unfolding bs using nth_take_drop_byte_at by blast
  moreover have "bs = [] \<longrightarrow> length (contents w) \<le> nat off"
    using bs x by auto
  ultimately show ?thesis by simp
qed

lemma load_loop_reads:
  assumes "IoFail \<notin> set (events w)" and "0 \<le> off" and "ntotal \<le> psz" and "length buf = psz"
    and "\<forall>j < ntotal. buf ! j = byte_at (contents w) (nat off + j)"
  shows "\<exists>w'. load_loop w off psz buf ntotal = (True, read_range (contents w) (nat off) psz, w')
           \<and> contents w' = contents w \<and> set (events w') \<subseteq> set (events w)"
  using assms
proof (induction w off psz buf ntotal rule: load_loop.induct)
  case (1 w file_offset psz buf ntotal)
  show ?case
  proof (cases "ntotal < psz")
    case False
    with "1.prems" have "ntotal = psz" by simp
    with "1.prems" have "buf = read_range (contents w) (nat file_offset) psz"
      by (intro nth_equalityI) (simp_all add: nth_read_range)
    with False show ?thesis by (simp add: load_loop.simps)
  next
    case True
    obtain r w1 where r: "pread w (psz - ntotal) (file_offset + int ntotal) = (r, w1)"
      by (cases "pread w (psz - ntotal) (file_offset + int ntotal)")
    from pread_os [OF r] "1.prems"(1)
    have w1: "contents w1 = contents w" "set (events w1) \<subseteq> set (events w)"
      "IoFail \<notin> set (events w1)" by auto
    have off: "nat (file_offset + int ntotal) = nat file_offset + ntotal"
      using "1.prems"(2) by (simp add: nat_add_distrib)
    show ?thesis
    proof (cases r)
      case (Inl e)
      with r "1.prems" have e: "e = EINTR" by (auto dest: pread_Inl)
      from "1.IH"(1) [OF True r [symmetric] Inl e w1(3) "1.prems"(2,3,4)] "1.prems"(5) w1(1)
      obtain w' where "load_loop w1 file_offset psz buf ntotal
           = (True, read_range (contents w1) (nat file_offset) psz, w')"
        "contents w' = contents w1" "set (events w') \<subseteq> set (events w1)"
        by auto
      with w1 have "load_loop w1 file_offset psz buf ntotal
           = (True, read_range (contents w) (nat file_offset) psz, w')"
        "contents w' = contents w" "set (events w') \<subseteq> set (events w)"
        by auto
      with True r Inl e show ?thesis
        by (subst load_loop.simps) simp
    next
      case (Inr bs)
      from pread_Inr [of w "psz - ntotal" "file_offset + int ntotal" bs w1] r Inr True "1.prems"(2)
      have bs: "length bs \<le> psz - ntotal"
        "\<forall>j < length bs. bs ! j = byte_at (contents w) (nat file_offset + ntotal + j)"
        "bs = [] \<longrightarrow> length (contents w) \<le> nat file_offset + ntotal"
        by (simp_all add: off)
      show ?thesis
      proof (cases "length bs = 0")
        case True
        with bs have eof: "length (contents w) \<le> nat file_offset + ntotal" by simp
        have "memset buf ntotal 0 (psz - ntotal) = read_range (contents w) (nat file_offset) psz"
        proof (intro nth_equalityI)
          show "length (memset buf ntotal 0 (psz - ntotal)) = length (read_range (contents w) (nat file_offset) psz)"
            using "1.prems" by (simp add: memset_def)
        next
          fix i
          assume "i < length (memset buf ntotal 0 (psz - ntotal))"
          with "1.prems" have i: "i < psz" by (simp add: memset_def)
          show "memset buf ntotal 0 (psz - ntotal) ! i = read_range (contents w) (nat file_offset) psz ! i"
          proof (cases "i < ntotal")
            case True
            with "1.prems" i show ?thesis
              by (simp add: memset_def nth_append nth_read_range)
          next
            case False
            with eof have "byte_at (contents w) (nat file_offset + i) = 0"
              by (simp add: byte_at_def)
            with False i "1.prems" show ?thesis
              by (simp add: memset_def nth_append nth_read_range)
          qed
        qed
        with \<open>ntotal < psz\<close> r Inr True w1 show ?thesis
          by (subst load_loop.simps) simp
      next
        case False
        let ?buf = "memcpy buf ntotal bs (length bs)"
        have len: "length ?buf = psz"
          using bs(1) "1.prems" True by (simp add: length_memcpy)
        have pre: "\<forall>j < ntotal + length bs. ?buf ! j = byte_at (contents w1) (nat file_offset + j)"
        proof (intro allI impI)
          fix j
          assume j: "j < ntotal + length bs"
          with bs(1) "1.prems" True have "j < length buf" by simp
          with bs(1) "1.prems" True have "?buf ! j = (if ntotal \<le> j \<and> j < ntotal + length bs
                then bs ! (j - ntotal) else buf ! j)"
            by (intro nth_memcpy) simp_all
          with j bs(2) "1.prems"(5) w1 show "?buf ! j = byte_at (contents w1) (nat file_offset + j)"
            by (cases "ntotal \<le> j") (auto simp: le_iff_add add.assoc)
        qed
        from bs(1) True have le: "ntotal + length bs \<le> psz" by simp
        from "1.IH"(2) [OF True r [symmetric] Inr False w1(3) "1.prems"(2) le len pre]
        obtain w' where "load_loop w1 file_offset psz ?buf (ntotal + length bs)
           = (True, read_range (contents w1) (nat file_offset) psz, w')"
          "contents w' = contents w1" "set (events w') \<subseteq> set (events w1)"
          by blast
        with w1 have "load_loop w1 file_offset psz ?buf (ntotal + length bs)
           = (True, read_range (contents w) (nat file_offset) psz, w')"
          "contents w' = contents w" "set (events w') \<subseteq> set (events w)"
          by auto
        with True r Inr False show ?thesis
          by (subst load_loop.simps) simp
      qed
    qed
  qed
qed

lemma pwrite_Inl:
  "pwrite w src count off = (Inl e, w') \<Longrightarrow>
     contents w' = contents w \<and> set (events w') \<subseteq> set (events w)
     \<and> (IoFail \<notin> set (events w) \<longrightarrow> 0 \<le> off \<longrightarrow> e = EINTR)"
  by (auto simp: pwrite_def next_event_def Let_def split: list.splits if_splits)

lemma pwrite_Inr:
  assumes "pwrite w src count off = (Inr n, w')" and "0 < count" and "count \<le> length src"
  shows "0 \<le> off \<and> 0 < n \<and> n \<le> count \<and> set (events w') \<subseteq> set (events w)
         \<and> (\<forall>i. byte_at (contents w') i =
                (if nat off \<le> i \<and> i < nat off + n then src ! (i - nat off)
                 else byte_at (contents w) i))"
proof -
  obtain ev evs where ne: "next_event (events w) = (ev, evs)"
    by (cases "next_event (events w)")
  from assms ne have ev: "ev \<noteq> IoEINTR" "ev \<noteq> IoFail" and off: "0 \<le> off"
    and n: "n = xfer ev count"
    and w': "w' = w\<lparr>events := evs, contents := write_bytes (contents w) (nat off) (take n src)\<rparr>"
    by (auto simp: pwrite_def Let_def split: if_splits)
  from xfer_pos [OF ev assms(2)] n have x: "0 < n" "n \<le> count" by simp_all
  from ne have "set evs \<subseteq> set (events w)"
    by (auto simp: next_event_def split: list.splits)
  moreover have "\<forall>i. byte_at (contents w') i =
                (if nat off \<le> i \<and> i < nat off + n then src ! (i - nat off)
                 else byte_at (contents w) i)"
    using x assms(3) by (auto simp: w' byte_at_write_bytes)
  ultimately show ?thesis using off x w' by simp
qed

lemma flush_loop_writes:
  assumes "flush_loop w off psz tmp ntotal = (True, w')" and "0 \<le> off" and "ntotal \<le> psz"
    and "length tmp = psz"
  shows "set (events w') \<subseteq> set (events w)
         \<and> (\<forall>i. byte_at (contents w') i =
                (if nat off + ntotal \<le> i \<and> i < nat off + psz then tmp ! (i - nat off)
                 else byte_at (contents w) i))"
  using assms
proof (induction w off psz tmp ntotal rule: flush_loop.induct)
  case (1 w file_offset psz tmp ntotal)
  show ?case
  proof (cases "ntotal < psz")
    case False
    with "1.prems" show ?thesis by (auto simp: flush_loop.simps)
  next
    case True
    obtain r w1 where r: "pwrite w (drop ntotal tmp) (psz - ntotal) (file_offset + int ntotal) = (r, w1)"
      by (cases "pwrite w (drop ntotal tmp) (psz - ntotal) (file_offset + int ntotal)")
    have off: "nat (file_offset + int ntotal) = nat file_offset + ntotal"
      using "1.prems"(2) by (simp add: nat_add_distrib)
    show ?thesis
    proof (cases r)
      case (Inl e)
      from pwrite_Inl [of w "drop ntotal tmp" "psz - ntotal" "file_offset + int ntotal" e w1] r Inl
      have w1: "contents w1 = contents w" "set (events w1) \<subseteq> set (events w)" by simp_all
      from "1.prems"(1) True r Inl have e: "e = EINTR"
        and fl: "flush_loop w1 file_offset psz tmp ntotal = (True, w')"
        by (subst (asm) flush_loop.simps, simp split: if_splits)+
      from "1.IH"(1) [OF True r [symmetric] Inl e fl "1.prems"(2,3,4)] w1 show ?thesis
        by auto
    next
      case (Inr n)
      from pwrite_Inr [of w "drop ntotal tmp" "psz - ntotal" "file_offset + int ntotal" n w1] r Inr True
        "1.prems"(4)
      have n: "0 < n" "n \<le> psz - ntotal" "set (events w1) \<subseteq> set (events w)"
        and b1: "\<And>i. byte_at (contents w1) i =
                (if nat file_offset + ntotal \<le> i \<and> i < nat file_offset + ntotal + n
                 then drop ntotal tmp ! (i - (nat file_offset + ntotal))
                 else byte_at (contents w) i)"
        by (simp_all add: off)
      from "1.prems"(1) True r Inr
      have fl: "flush_loop w1 file_offset psz tmp (ntotal + n) = (True, w')"
        by (subst (asm) flush_loop.simps) simp
      from n True have le: "ntotal + n \<le> psz" by simp
      from "1.IH"(2) [OF True r [symmetric] Inr fl "1.prems"(2) le "1.prems"(4)]
      have ev: "set (events w') \<subseteq> set (events w1)"
        and b2: "\<And>i. byte_at (contents w') i =
                (if nat file_offset + (ntotal + n) \<le> i \<and> i < nat file_offset + psz
                 then tmp ! (i - nat file_offset) else byte_at (contents w1) i)"
        by simp_all
      have "\<forall>i. byte_at (contents w') i =
                (if nat file_offset + ntotal \<le> i \<and> i < nat file_offset + psz
                 then tmp ! (i - nat file_offset) else byte_at (contents w) i)"
      proof
        fix i
        show "byte_at (contents w') i =
                (if nat file_offset + ntotal \<le> i \<and> i < nat file_offset + psz
                 then tmp ! (i - nat file_offset) else byte_at (contents w) i)"
        proof (cases "nat file_offset + ntotal \<le> i \<and> i < nat file_offset + ntotal + n")
          case True
          then have "ntotal + (i - (nat file_offset + ntotal)) = i - nat file_offset" by simp
          with True le "1.prems"(4) have "drop ntotal tmp ! (i - (nat file_offset + ntotal)) = tmp ! (i - nat file_offset)"
            by simp
          with True le b1 [of i] b2 [of i] show ?thesis by simp
        next
          case False
          with b1 [of i] b2 [of i] n show ?thesis by auto
        qed
      qed
      with ev n show ?thesis by auto
    qed
  qed
qed

lemma flush_loop_succeeds:
  assumes "IoFail \<notin> set (events w)" and "0 \<le> off" and "length tmp = psz" and "ntotal \<le> psz"
  shows "fst (flush_loop w off psz tmp ntotal)"
  using assms
proof (induction w off psz tmp ntotal rule: flush_loop.induct)
  case (1 w file_offset psz tmp ntotal)
  show ?case
  proof (cases "ntotal < psz")
    case False
    then show ?thesis by (simp add: flush_loop.simps)
  next
    case True
    obtain r w1 where r: "pwrite w (drop ntotal tmp) (psz - ntotal) (file_offset + int ntotal) = (r, w1)"
      by (cases "pwrite w (drop ntotal tmp) (psz - ntotal) (file_offset + int ntotal)")
    have off: "0 \<le> file_offset + int ntotal" using "1.prems"(2) by simp
    show ?thesis
    proof (cases r)
      case (Inl e)
      from pwrite_Inl [of w "drop ntotal tmp" "psz - ntotal" "file_offset + int ntotal" e w1] r Inl
        "1.prems"(1) off
      have w1: "IoFail \<notin> set (events w1)" and e: "e = EINTR" by auto
      from "1.IH"(1) [OF True r [symmetric] Inl e w1 "1.prems"(2,3,4)] True r Inl e show ?thesis
        by (subst flush_loop.simps) simp
    next
      case (Inr n)
      from pwrite_Inr [of w "drop ntotal tmp" "psz - ntotal" "file_offset + int ntotal" n w1] r Inr True
        "1.prems"(3,1)
      have n: "n \<le> psz - ntotal" and w1: "IoFail \<notin> set (events w1)" by auto
      from n True have le: "ntotal + n \<le> psz" by simp
      from "1.IH"(2) [OF True r [symmetric] Inr w1 "1.prems"(2,3) le] True r Inr show ?thesis
        by (subst flush_loop.simps) simp
    qed
  qed
qed

subsection \<open>Loading and flushing a frame\<close>

lemma page_offset_bound:
  fixes k :: pageno
  assumes "s < 2 ^ 31"
  shows "unat k * s < 2 ^ 63"
proof -
  have "unat k < 2 ^ 32" using unsigned_less [of k, where 'a = nat] by simp
  then have "unat k * s \<le> 2 ^ 32 * s" by simp
  also from assms have "\<dots> < 2 ^ 32 * 2 ^ 31" by simp
  finally show ?thesis by simp
qed

lemma page_offset: "s < 2 ^ 31 \<Longrightarrow> off_t_mul (unat (k :: pageno)) s = int (unat k * s)"
  by (rule off_t_mul_exact) (rule page_offset_bound)

lemma read_range_cong:
  "(\<And>i. off \<le> i \<Longrightarrow> i < off + n \<Longrightarrow> byte_at f i = byte_at g i) \<Longrightarrow>
     read_range f off n = read_range g off n"
  by (simp add: read_range_def)

lemma pages_disjoint:
  fixes j k :: pageno
  assumes "j \<noteq> k"
  shows "unat k * s + s \<le> unat j * s \<or> unat j * s + s \<le> unat k * s"
proof -
  from assms have "unat j \<noteq> unat k" by (simp add: word_unat_eq_iff)
  then consider "unat k < unat j" | "unat j < unat k" by linarith
  then show ?thesis
  proof cases
    case 1
    then have "Suc (unat k) * s \<le> unat j * s" by (intro mult_le_mono1) simp
    then show ?thesis by simp
  next
    case 2
    then have "Suc (unat j) * s \<le> unat k * s" by (intro mult_le_mono1) simp
    then show ?thesis by simp
  qed
qed

lemma load_from_fd_reads:
  assumes "IoFail \<notin> set (events w)" and "0 \<le> off" and "length (data p) = page_size p"
  shows "\<exists>w'. load_from_fd p w off =
            (True, p\<lparr>data := read_range (contents w) (nat off) (page_size p),
                     loaded := True, dirty := False\<rparr>, w')
           \<and> contents w' = contents w \<and> set (events w') \<subseteq> set (events w)"
proof -
  from load_loop_reads [OF assms(1,2), of 0 "page_size p" "data p"] assms(3)
  obtain w' where "load_loop w off (page_size p) (data p) 0
       = (True, read_range (contents w) (nat off) (page_size p), w')"
    "contents w' = contents w" "set (events w') \<subseteq> set (events w)"
    by auto
  then show ?thesis by (simp add: load_from_fd_def)
qed

lemma FlushPage_clean: "\<not> dirty page \<Longrightarrow> FlushPage st page = (True, page, st)"
  by (simp add: FlushPage_def)

lemma FlushPage_dirty:
  assumes "dirty page" and "loaded page" and "length (data page) = page_size page"
    and "IoFail \<notin> set (events (disk st))" and "pool_page_size st < 2 ^ 31"
  shows "\<exists>st'. FlushPage st page = (True, page\<lparr>dirty := False\<rparr>, st')
           \<and> set (events (disk st')) \<subseteq> set (events (disk st))
           \<and> (\<forall>i. byte_at (contents (disk st')) i =
                 (if unat (page_id page) * pool_page_size st \<le> i
                     \<and> i < unat (page_id page) * pool_page_size st + page_size page
                  then data page ! (i - unat (page_id page) * pool_page_size st)
                  else byte_at (contents (disk st)) i))"
proof -
  define off where "off = unat (page_id page) * pool_page_size st"
  have om: "off_t_mul (unat (page_id page)) (pool_page_size st) = int off"
    unfolding off_def by (rule page_offset [OF assms(5)])
  obtain ok w' where fl: "flush_loop (disk st) (int off) (page_size page) (data page) 0 = (ok, w')"
    by (cases "flush_loop (disk st) (int off) (page_size page) (data page) 0")
  from flush_loop_succeeds [OF assms(4), of "int off" "data page" "page_size page" 0] assms(3) fl
  have ok: "ok" by simp
  from flush_loop_writes [of "disk st" "int off" "page_size page" "data page" 0 w'] fl ok assms(3)
  have w': "set (events w') \<subseteq> set (events (disk st))"
    "\<forall>i. byte_at (contents w') i =
                 (if off \<le> i \<and> i < off + page_size page
                  then data page ! (i - off) else byte_at (contents (disk st)) i)"
    by simp_all
  have "FlushPage st page = (True, page\<lparr>dirty := False\<rparr>, st\<lparr>disk := w'\<rparr>)"
    using assms(1,2) fl ok by (simp add: FlushPage_def flush_to_fd_def om)
  with w' show ?thesis
    unfolding off_def [symmetric] by simp
qed

lemma frame_ok_transfer:
  assumes "frame_ok st k p" and "pool_page_size st' = pool_page_size st"
    and "read_range (contents (disk st')) (unat k * pool_page_size st) (pool_page_size st)
           = read_range (contents (disk st)) (unat k * pool_page_size st) (pool_page_size st)"
  shows "frame_ok st' k p"
  using assms by (simp add: frame_ok_def)

lemma coherent_lookup:
  "coherent st \<Longrightarrow> map_of (page_table st) k = Some p \<Longrightarrow> frame_ok st k p"
  by (simp add: coherent_def)

lemma FlushPage_ranges:
  assumes ok: "frame_ok st j p" and nf: "IoFail \<notin> set (events (disk st))"
    and sz: "pool_page_size st < 2 ^ 31"
  shows "\<exists>st'. FlushPage st p = (True, p\<lparr>dirty := False\<rparr>, st')
           \<and> IoFail \<notin> set (events (disk st'))
           \<and> read_range (contents (disk st')) (unat j * pool_page_size st) (pool_page_size st) = data p
           \<and> (\<forall>k. k \<noteq> j \<longrightarrow>
                 read_range (contents (disk st')) (unat k * pool_page_size st) (pool_page_size st)
                 = read_range (contents (disk st)) (unat k * pool_page_size st) (pool_page_size st))"
proof (cases "dirty p")
  case False
  then have "p\<lparr>dirty := False\<rparr> = p" by simp
  with False ok nf show ?thesis
    by (simp add: FlushPage_clean frame_ok_def)
next
  case True
  define s where "s = pool_page_size st"
  from ok have f: "page_id p = j" "page_size p = s" "length (data p) = s" "loaded p"
    by (simp_all add: frame_ok_def s_def)
  from FlushPage_dirty [OF True f(4) _ nf sz] f
  obtain st' where F: "FlushPage st p = (True, p\<lparr>dirty := False\<rparr>, st')"
    and ev: "set (events (disk st')) \<subseteq> set (events (disk st))"
    and b: "\<And>i. byte_at (contents (disk st')) i =
                 (if unat j * s \<le> i \<and> i < unat j * s + s
                  then data p ! (i - unat j * s) else byte_at (contents (disk st)) i)"
    unfolding s_def by auto
  have 1: "read_range (contents (disk st')) (unat j * s) s = data p"
    using f(3) by (intro nth_equalityI) (simp_all add: nth_read_range b)
  have 2: "read_range (contents (disk st')) (unat k * s) s
           = read_range (contents (disk st)) (unat k * s) s" if "k \<noteq> j" for k
  proof (rule read_range_cong)
    fix i
    assume "unat k * s \<le> i" "i < unat k * s + s"
    with pages_disjoint [OF that, of s] have "\<not> (unat j * s \<le> i \<and> i < unat j * s + s)"
      by auto
    with b [of i] show "byte_at (contents (disk st')) i = byte_at (contents (disk st)) i"
      by simp
  qed
  from F ev nf 1 2 show ?thesis
    unfolding s_def by auto
qed

lemma set_delete: "set (AList.delete k al) = {x \<in> set al. fst x \<noteq> k}"
  by (induction al) auto

lemma EvictIfNeeded_coherent:
  assumes c: "coherent st" and E: "EvictIfNeeded st = Inr st'"
  shows "coherent st' \<and> (\<forall>k. logical_page st' k = logical_page st k)
         \<and> pool_page_size st' = pool_page_size st"
proof (cases "length (page_table st) < capacity st")
  case True
  with E c show ?thesis by (simp add: EvictIfNeeded_def)
next
  case False
  with E have W: "evict_walk st (rev (lru_list st)) [] = Inr st'"
    by (simp add: EvictIfNeeded_def)
  from c have inv: "index_recency_inv st" and nf: "IoFail \<notin> set (events (disk st))"
    and sz: "pool_page_size st < 2 ^ 31"
    by (simp_all add: coherent_def)
  from evict_walk_cases [OF W] show ?thesis
  proof (elim disjE exE conjE)
    assume "st' = st\<lparr>cerr := cerr st @ [AllPinnedWarning]\<rparr>"
    with c show ?thesis
      by (simp add: coherent_def index_recency_inv_def frame_ok_def logical_page_def
            cong: option.case_cong)
  next
    fix pre pid post page
    assume look: "map_of (page_table st) pid = Some page"
      and st': "st' = (snd (snd (FlushPage st page)))
                  \<lparr>page_table := AList.delete pid (page_table st),
                   lru_list := rev post @ rev pre @ []\<rparr>"
    from coherent_lookup [OF c look] have fo: "frame_ok st pid page" .
    from FlushPage_ranges [OF fo nf sz] obtain st1
      where F: "FlushPage st page = (True, page\<lparr>dirty := False\<rparr>, st1)"
        and nf1: "IoFail \<notin> set (events (disk st1))"
        and r1: "read_range (contents (disk st1)) (unat pid * pool_page_size st) (pool_page_size st) = data page"
        and r2: "\<And>k. k \<noteq> pid \<Longrightarrow>
                 read_range (contents (disk st1)) (unat k * pool_page_size st) (pool_page_size st)
                 = read_range (contents (disk st)) (unat k * pool_page_size st) (pool_page_size st)"
      by blast
    from FlushPage_fields [OF F] have fs: "pool_page_size st1 = pool_page_size st" by simp
    from st' F have st'': "st' = st1\<lparr>page_table := AList.delete pid (page_table st),
                   lru_list := rev post @ rev pre\<rparr>" by simp
    have i': "index_recency_inv st'" using inv E by (rule inv_EvictIfNeeded)
    have frames: "\<forall>k p. map_of (page_table st') k = Some p \<longrightarrow> frame_ok st' k p"
    proof (intro allI impI)
      fix k p
      assume "map_of (page_table st') k = Some p"
      with st'' have in_old: "map_of (page_table st) k = Some p" and ne: "k \<noteq> pid"
        by (auto simp: delete_conv' split: if_splits)
      from coherent_lookup [OF c in_old] have "frame_ok st k p" .
      then show "frame_ok st' k p"
        using fs r2 [OF ne] by (intro frame_ok_transfer [of st k p st']) (simp_all add: st'')
    qed
    have log: "logical_page st' k = logical_page st k" for k
    proof (cases "k = pid")
      case True
      with look r1 fs show ?thesis
        by (simp add: logical_page_def st'' delete_conv')
    next
      case False
      with r2 [OF False] fs show ?thesis
        by (simp add: logical_page_def st'' delete_conv' split: option.splits)
    qed
    from i' nf1 sz fs frames log show ?thesis
      by (simp add: coherent_def st'')
  qed
qed

lemma LoadPageFromDisk_reads:
  assumes "IoFail \<notin> set (events (disk st))" and "s < 2 ^ 31"
  shows "\<exists>st'. LoadPageFromDisk st no s =
            (st', Some ((Page_new no s)\<lparr>data := read_range (contents (disk st)) (unat no * s) s,
                                      loaded := True, dirty := False\<rparr>))
           \<and> contents (disk st') = contents (disk st)
           \<and> set (events (disk st')) \<subseteq> set (events (disk st))"
proof -
  define off where "off = unat no * s"
  have om: "off_t_mul (unat no) s = int off"
    unfolding off_def by (rule page_offset [OF assms(2)])
  from load_from_fd_reads [OF assms(1), of "int off" "Page_new no s"]
  obtain w' where "load_from_fd (Page_new no s) (disk st) (int off) =
      (True, (Page_new no s)\<lparr>data := read_range (contents (disk st)) off s,
                              loaded := True, dirty := False\<rparr>, w')"
    "contents w' = contents (disk st)" "set (events w') \<subseteq> set (events (disk st))"
    by (auto simp: Page_new_def)
  then show ?thesis
    unfolding off_def [symmetric] by (simp add: LoadPageFromDisk_def om)
qed

lemma coherent_update_frame:
  assumes c: "coherent st" and r: "map_of (page_table st) no = Some p" and f: "frame_ok st no p'"
  shows "coherent (st\<lparr>page_table := AList.update no p' (page_table st)\<rparr>)"
proof -
  from c have "index_recency_inv st" by (simp add: coherent_def)
  from inv_update_resident [OF this r, of p']
  have "index_recency_inv (st\<lparr>page_table := AList.update no p' (page_table st)\<rparr>)" .
  moreover have "frame_ok (st\<lparr>page_table := AList.update no p' (page_table st)\<rparr>) k q"
    if "map_of (AList.update no p' (page_table st)) k = Some q" for k q
  proof (cases "k = no")
    case True
    with that f show ?thesis by (simp add: update_conv' frame_ok_def)
  next
    case False
    with that have "map_of (page_table st) k = Some q" by (simp add: update_conv')
    from coherent_lookup [OF c this] show ?thesis by (simp add: frame_ok_def)
  qed
  ultimately show ?thesis using c by (simp add: coherent_def)
qed

lemma logical_update:
  "logical_page (st\<lparr>page_table := AList.update no p' (page_table st)\<rparr>) k =
     (if k = no then data p' else logical_page st k)"
  by (simp add: logical_page_def update_conv' cong: option.case_cong)

lemma GetPage_coherent:
  assumes c: "coherent st" and G: "GetPage st no (pool_page_size st) = Inr (st', h)"
  shows "\<exists>page. h = Some page \<and> map_of (page_table st') no = Some page \<and> coherent st'
           \<and> (\<forall>k. logical_page st' k = logical_page st k)
           \<and> pool_page_size st' = pool_page_size st"
proof (cases "map_of (page_table st) no")
  case (Some p)
  with G have st': "st' = MoveToFront (st\<lparr>hit_count := (hit_count st + 1) mod 2 ^ 64\<rparr>) no"
    and h: "h = Some p" by (simp_all add: GetPage_def)
  from Some have "no \<in> fst ` set (page_table st)"
    by (metis map_of_eq_None_iff option.distinct(1))
  with c have "index_recency_inv st'"
    unfolding st' by (intro inv_MoveToFront) (simp_all add: coherent_def index_recency_inv_def)
  with c Some h show ?thesis
    by (simp add: st' coherent_def MoveToFront_def frame_ok_def logical_page_def
          cong: option.case_cong)
next
  case None
  let ?s = "st\<lparr>miss_count := (miss_count st + 1) mod 2 ^ 64\<rparr>"
  from G None obtain st1 where E: "EvictIfNeeded ?s = Inr st1"
    by (cases "EvictIfNeeded ?s") (auto simp: GetPage_def)
  from c have cs: "coherent ?s"
    by (simp add: coherent_def index_recency_inv_def frame_ok_def)
  from EvictIfNeeded_coherent [OF cs E]
  have c1: "coherent st1" and l1: "\<And>k. logical_page st1 k = logical_page ?s k"
    and s1: "pool_page_size st1 = pool_page_size st" by simp_all
  have ls: "logical_page ?s k = logical_page st k" for k
    by (simp add: logical_page_def cong: option.case_cong)
  from EvictIfNeeded_keys_subset [OF E, of no] None have n1: "map_of (page_table st1) no = None"
    by auto
  from c1 have nf1: "IoFail \<notin> set (events (disk st1))" and sz: "pool_page_size st < 2 ^ 31"
    and i1: "index_recency_inv st1"
    by (simp_all add: coherent_def s1)
  define page where "page = (Page_new no (pool_page_size st))
       \<lparr>data := read_range (contents (disk st1)) (unat no * pool_page_size st) (pool_page_size st),
        loaded := True, dirty := False\<rparr>"
  from LoadPageFromDisk_reads [OF nf1 sz, of no] obtain st2
    where L: "LoadPageFromDisk st1 no (pool_page_size st) = (st2, Some page)"
      and d2: "contents (disk st2) = contents (disk st1)"
      and e2: "set (events (disk st2)) \<subseteq> set (events (disk st1))"
    unfolding page_def by blast
  from LoadPageFromDisk_fields [OF L]
  have f2: "page_table st2 = page_table st1" "lru_list st2 = lru_list st1"
    "pool_page_size st2 = pool_page_size st1" by simp_all
  from GetPage_miss [OF None E L] G
  have st': "st' = st2\<lparr>page_table := AList.update no page (page_table st1),
                       lru_list := no # lru_list st1\<rparr>" and h: "h = Some page"
    by simp_all
  from n1 have nk: "no \<notin> fst ` set (page_table st1)" by (simp add: map_of_eq_None_iff)
  have i': "index_recency_inv st'"
    using i1 nk by (auto simp: st' index_recency_inv_def distinct_update dom_update)
  have fr: "frame_ok st' k q" if "map_of (page_table st') k = Some q" for k q
  proof (cases "k = no")
    case True
    with that have "q = page" by (simp add: st' update_conv')
    then show ?thesis
      by (simp add: True frame_ok_def st' f2 s1 d2 page_def Page_new_def)
  next
    case False
    with that have "map_of (page_table st1) k = Some q" by (simp add: st' update_conv')
    from coherent_lookup [OF c1 this] show ?thesis
      by (simp add: frame_ok_def st' f2 s1 d2)
  qed
  have lg: "logical_page st' k = logical_page st k" for k
  proof (cases "k = no")
    case True
    have "logical_page st' no = data page" by (simp add: logical_page_def st' update_conv')
    also have "\<dots> = logical_page st1 no"
      by (simp add: page_def logical_page_def n1 s1)
    finally show ?thesis using True l1 ls by simp
  next
    case False
    then have "logical_page st' k = logical_page st1 k"
      by (simp add: logical_page_def st' update_conv' f2 s1 d2 cong: option.case_cong)
    with l1 ls show ?thesis by simp
  qed
  from i' fr lg h nf1 e2 sz s1 f2 show ?thesis
    by (auto simp: coherent_def st' update_conv')
qed

subsection \<open>Round trip through eviction and reload\<close>

lemma pin_fields:
  "page_id (pin p) = page_id p \<and> page_size (pin p) = page_size p \<and> data (pin p) = data p
   \<and> loaded (pin p) = loaded p \<and> dirty (pin p) = dirty p"
  by (simp add: pin_def)

lemma unpin_fields:
  "page_id (fst (unpin p)) = page_id p \<and> page_size (fst (unpin p)) = page_size p
   \<and> data (fst (unpin p)) = data p \<and> loaded (fst (unpin p)) = loaded p
   \<and> dirty (fst (unpin p)) = dirty p"
  by (simp add: unpin_def Let_def)

lemma read_page_coherent:
  assumes c: "coherent st" and len: "pool_page_size st \<le> length buf"
  shows "\<exists>st'. read_page st no (pool_page_size st) (Some buf)
             = Inr (st', Some (logical_page st no @ drop (pool_page_size st) buf))
           \<and> coherent st' \<and> (\<forall>k. logical_page st' k = logical_page st k)
           \<and> pool_page_size st' = pool_page_size st"
proof -
  define s where "s = pool_page_size st"
  from c have "index_recency_inv st" by (simp add: coherent_def)
  from GetPage_total [OF inv_subset [OF this], of no s] obtain st1 h
    where G: "GetPage st no s = Inr (st1, h)" by blast
  from GetPage_coherent [OF c G [unfolded s_def]] obtain page
    where h: "h = Some page" and r: "map_of (page_table st1) no = Some page"
      and c1: "coherent st1" and l1: "\<And>k. logical_page st1 k = logical_page st k"
      and s1: "pool_page_size st1 = s"
    unfolding s_def by blast
  from coherent_lookup [OF c1 r] have fo: "frame_ok st1 no page" .
  then have f: "page_size page = s" "length (data page) = s" "loaded page"
    by (simp_all add: frame_ok_def s1)
  let ?p = "fst (unpin (pin page))"
  let ?st' = "st1\<lparr>page_table := AList.update no ?p (page_table st1)\<rparr>"
  have ra: "ReadAt (pin page) 0 (Some buf) s = Inr (s, data page @ drop s buf)
            \<or> (s = 0 \<and> ReadAt (pin page) 0 (Some buf) s = Inr (0, buf))"
    using f len by (cases "s = 0") (simp_all add: ReadAt_def pin_fields memcpy_def s_def Let_def)
  from f have d0: "s = 0 \<Longrightarrow> data page = []" by simp
  have lp: "logical_page st no = data page"
    using l1 [of no] r by (simp add: logical_page_def)
  have R: "read_page st no s (Some buf) = Inr (?st', Some (logical_page st no @ drop s buf))"
    using ra G h d0 lp by (auto simp: read_page_def)
  from fo have "frame_ok st1 no ?p"
    by (simp add: frame_ok_def pin_fields unpin_fields)
  from coherent_update_frame [OF c1 r this] have c': "coherent ?st'" .
  have "logical_page st1 no = data page"
    using r by (simp add: logical_page_def)
  moreover have "logical_page ?st' k = (if k = no then data ?p else logical_page st1 k)" for k
    by (rule logical_update)
  ultimately have l': "logical_page ?st' k = logical_page st k" for k
    using l1 by (simp add: pin_fields unpin_fields)
  from R c' l' s1 show ?thesis
    unfolding s_def by auto
qed

lemma write_page_coherent:
  assumes c: "coherent st" and len: "pool_page_size st \<le> length buf"
  shows "\<exists>st'. write_page st no (pool_page_size st) (Some buf) = Inr st'
           \<and> coherent st'
           \<and> (\<forall>k. logical_page st' k =
                 (if k = no then take (pool_page_size st) buf else logical_page st k))
           \<and> pool_page_size st' = pool_page_size st"
proof -
  define s where "s = pool_page_size st"
  from c have "index_recency_inv st" by (simp add: coherent_def)
  from GetPage_total [OF inv_subset [OF this], of no s] obtain st1 h
    where G: "GetPage st no s = Inr (st1, h)" by blast
  from GetPage_coherent [OF c G [unfolded s_def]] obtain page
    where h: "h = Some page" and r: "map_of (page_table st1) no = Some page"
      and c1: "coherent st1" and l1: "\<And>k. logical_page st1 k = logical_page st k"
      and s1: "pool_page_size st1 = s"
    unfolding s_def by blast
  from coherent_lookup [OF c1 r] have fo: "frame_ok st1 no page" .
  then have f: "page_size page = s" "length (data page) = s" "loaded page" "page_id page = no"
    by (simp_all add: frame_ok_def s1)
  obtain page' where W: "WriteAt (pin page) 0 (Some buf) s = Inr (min s s, page')"
    and p': "page_id page' = no" "page_size page' = s" "data page' = take s buf" "loaded page'"
      "s \<noteq> 0 \<longrightarrow> dirty page'" "s = 0 \<longrightarrow> page' = pin page"
    using f len by (cases "s = 0") (auto simp: WriteAt_def pin_fields memcpy_def s_def pin_def Let_def)
  let ?p = "fst (unpin page')"
  let ?st' = "st1\<lparr>page_table := AList.update no ?p (page_table st1)\<rparr>"
  have R: "write_page st no s (Some buf) = Inr ?st'"
    using W G h by (simp add: write_page_def)
  have "frame_ok st1 no ?p"
  proof (cases "s = 0")
    case True
    with p' fo show ?thesis by (simp add: frame_ok_def pin_fields unpin_fields read_range_def)
  next
    case False
    with p' len show ?thesis by (simp add: frame_ok_def unpin_fields s1 s_def)
  qed
  from coherent_update_frame [OF c1 r this] have c': "coherent ?st'" .
  have l': "logical_page ?st' k = (if k = no then take s buf else logical_page st k)" for k
    using l1 [of k] p' by (simp add: logical_update unpin_fields)
  from R c' l' s1 show ?thesis
    unfolding s_def by auto
qed

lemma FlushAll_coherent:
  "coherent st \<Longrightarrow>
     coherent (FlushAll st order) \<and> (\<forall>k. logical_page (FlushAll st order) k = logical_page st k)
     \<and> pool_page_size (FlushAll st order) = pool_page_size st"
proof (induction order arbitrary: st)
  case Nil
  then show ?case by simp
next
  case (Cons pid order)
  show ?case
  proof (cases "map_of (page_table st) pid")
    case None
    with Cons.IH [OF Cons.prems] show ?thesis by simp
  next
    case (Some page)
    from Cons.prems have nf: "IoFail \<notin> set (events (disk st))" and sz: "pool_page_size st < 2 ^ 31"
      by (simp_all add: coherent_def)
    from coherent_lookup [OF Cons.prems Some] have fo: "frame_ok st pid page" .
    from FlushPage_ranges [OF fo nf sz] obtain st1
      where F: "FlushPage st page = (True, page\<lparr>dirty := False\<rparr>, st1)"
        and nf1: "IoFail \<notin> set (events (disk st1))"
        and r1: "read_range (contents (disk st1)) (unat pid * pool_page_size st) (pool_page_size st) = data page"
        and r2: "\<And>k. k \<noteq> pid \<Longrightarrow>
                 read_range (contents (disk st1)) (unat k * pool_page_size st) (pool_page_size st)
                 = read_range (contents (disk st)) (unat k * pool_page_size st) (pool_page_size st)"
      by blast
    from FlushPage_fields [OF F] have fs: "pool_page_size st1 = pool_page_size st"
      "page_table st1 = page_table st" "lru_list st1 = lru_list st" by simp_all
    have c1: "coherent st1"
      unfolding coherent_def
    proof (intro conjI allI impI)
      from Cons.prems fs show "index_recency_inv st1"
        by (simp add: coherent_def index_recency_inv_def)
      show "IoFail \<notin> set (events (disk st1))" by (rule nf1)
      from sz fs show "pool_page_size st1 < 2 ^ 31" by simp
    next
      fix k p
      assume "map_of (page_table st1) k = Some p"
      with fs have m: "map_of (page_table st) k = Some p" by simp
      from coherent_lookup [OF Cons.prems m] have fk: "frame_ok st k p" .
      show "frame_ok st1 k p"
      proof (cases "k = pid")
        case True
        with m Some have "p = page" by simp
        with fk True r1 fs show ?thesis by (simp add: frame_ok_def)
      next
        case False
        from frame_ok_transfer [OF fk fs(1) r2 [OF False]] show ?thesis .
      qed
    qed
    have l1: "logical_page st1 k = logical_page st k" for k
    proof (cases "k = pid")
      case True
      with Some fs show ?thesis by (simp add: logical_page_def)
    next
      case False
      with r2 [OF False] fs show ?thesis
        by (simp add: logical_page_def cong: option.case_cong)
    qed
    let ?s = "st1\<lparr>page_table := AList.update pid (page\<lparr>dirty := False\<rparr>) (page_table st1)\<rparr>"
    from Some fs have m1: "map_of (page_table st1) pid = Some page" by simp
    from fo r1 fs have "frame_ok st1 pid (page\<lparr>dirty := False\<rparr>)"
      by (simp add: frame_ok_def)
    from coherent_update_frame [OF c1 m1 this] have c2: "coherent ?s" .
    have lp: "logical_page st pid = data page"
      using Some by (simp add: logical_page_def)
    have "logical_page ?s k = (if k = pid then data (page\<lparr>dirty := False\<rparr>) else logical_page st1 k)" for k
      by (rule logical_update)
    with l1 lp have l2: "logical_page ?s k = logical_page st k" for k
      by simp
    from Cons.IH [OF c2] l2 fs(1) Some F show ?thesis by simp
  qed
qed

lemma step_coherent:
  assumes c: "coherent st" and o: "op_sized (pool_page_size st) x"
  shows "\<exists>st'. step st x = Inr st' \<and> coherent st' \<and> pool_page_size st' = pool_page_size st
           \<and> (\<forall>k. \<not> writes_page k x \<longrightarrow> logical_page st' k = logical_page st k)"
proof (cases x)
  case (ReadPage no psz buf)
  with o obtain b where "psz = pool_page_size st" "buf = Some b" "pool_page_size st \<le> length b"
    by (auto split: option.splits)
  with read_page_coherent [OF c this(3), of no] ReadPage show ?thesis by auto
next
  case (WritePage no psz buf)
  with o obtain b where "psz = pool_page_size st" "buf = Some b" "pool_page_size st \<le> length b"
    by (auto split: option.splits)
  with write_page_coherent [OF c this(3), of no] WritePage show ?thesis by auto
next
  case (FlushAllOp order)
  with FlushAll_coherent [OF c, of order] show ?thesis by simp
qed

lemma run_coherent:
  "coherent st \<Longrightarrow> \<forall>x \<in> set xs. op_sized (pool_page_size st) x \<Longrightarrow>
     \<exists>st'. run st xs = Inr st' \<and> coherent st' \<and> pool_page_size st' = pool_page_size st
       \<and> (\<forall>k. (\<forall>x \<in> set xs. \<not> writes_page k x) \<longrightarrow> logical_page st' k = logical_page st k)"
proof (induction xs arbitrary: st)
  case Nil
  then show ?case by simp
next
  case (Cons x xs)
  from Cons.prems have "op_sized (pool_page_size st) x" by simp
  from step_coherent [OF Cons.prems(1) this] obtain st1
    where s: "step st x = Inr st1" and c1: "coherent st1"
      and p1: "pool_page_size st1 = pool_page_size st"
      and l1: "\<And>k. \<not> writes_page k x \<Longrightarrow> logical_page st1 k = logical_page st k"
    by blast
  from Cons.prems p1 have "\<forall>x \<in> set xs. op_sized (pool_page_size st1) x" by simp
  from Cons.IH [OF c1 this] obtain st'
    where r: "run st1 xs = Inr st'" and c': "coherent st'"
      and p': "pool_page_size st' = pool_page_size st1"
      and l': "\<And>k. \<forall>x \<in> set xs. \<not> writes_page k x \<Longrightarrow> logical_page st' k = logical_page st1 k"
    by blast
  have "logical_page st' k = logical_page st k" if "\<forall>y \<in> set (x # xs). \<not> writes_page k y" for k
    using that l1 [of k] l' [of k] by simp
  with s r c' p' p1 show ?case by simp
qed

lemma coherent_new:
  assumes "LRUBufferPool_new w r ((s, c) # rest) = Inr st" and "IoFail \<notin> set (events w)"
    and "s < 2 ^ 31"
  shows "coherent st \<and> pool_page_size st = s"
  using assms
  by (auto simp: LRUBufferPool_new_def coherent_def index_recency_inv_def split: if_splits)

text \<open>
  Claim C1, as the code has it. Take a pool constructed with page size \<open>s\<close>, below \<open>2 ^ 31\<close>,
  and any capacity, over a file whose reads and writes may be interrupted or short but
  never fail for good. After any history of operations of size \<open>s\<close>, a \<open>write_page\<close> of \<open>s\<close>
  bytes \<open>b\<close> to page \<open>k\<close>, followed by any operations of size \<open>s\<close> other than writes to
  \<open>k\<close> (reads of any page, writes to other pages and flushes, however many evictions and
  reloads of \<open>k\<close> they force), followed by a \<open>read_page\<close> of \<open>k\<close>: every operation returns,
  and the read yields \<open>b\<close>.
\<close>

theorem write_read_roundtrip:
  assumes new: "LRUBufferPool_new w r ((s, c) # rest) = Inr st0"
    and nf: "IoFail \<notin> set (events w)" and sz: "s < 2 ^ 31"
    and before: "\<forall>x \<in> set before. op_sized s x"
    and b: "length b = s" and dst: "length dst = s"
    and between: "\<forall>x \<in> set between. op_sized s x \<and> \<not> writes_page k x"
  shows "\<exists>st1 st2 st3 st4.
           run st0 before = Inr st1
           \<and> write_page st1 k s (Some b) = Inr st2
           \<and> run st2 between = Inr st3
           \<and> read_page st3 k s (Some dst) = Inr (st4, Some b)"
proof -
  from coherent_new [OF new nf sz] have c0: "coherent st0" and p0: "pool_page_size st0 = s"
    by simp_all
  from run_coherent [OF c0, of before] before p0 obtain st1
    where r1: "run st0 before = Inr st1" and c1: "coherent st1" and p1: "pool_page_size st1 = s"
    by auto
  from write_page_coherent [OF c1, of b k] b p1 obtain st2
    where w2: "write_page st1 k s (Some b) = Inr st2" and c2: "coherent st2"
      and p2: "pool_page_size st2 = s" and l2: "logical_page st2 k = b"
    by auto
  from run_coherent [OF c2, of between] between p2 obtain st3
    where r3: "run st2 between = Inr st3" and c3: "coherent st3" and p3: "pool_page_size st3 = s"
      and l3: "logical_page st3 k = logical_page st2 k"
    by auto
  from read_page_coherent [OF c3, of dst k] dst p3 obtain st4
    where "read_page st3 k s (Some dst) = Inr (st4, Some (logical_page st3 k @ drop s dst))"
    by auto
  with l3 l2 dst have "read_page st3 k s (Some dst) = Inr (st4, Some b)" by simp
  with r1 w2 r3 show ?thesis by blast
qed

text \<open>
  Claim C1 as stated fails for a size other than the configured one: the pool is configured
  with pages of 8 bytes, page 1 is written with 4 bytes and flushed on eviction at offset
  \<open>1 * 8\<close>, then reloaded from offset \<open>1 * 4\<close>, and the read yields zeros. It fails as well
  when the flush of the evicted frame meets a permanent error: page 5 is written, evicted by
  the write of page 6 while its \<open>pwrite\<close> fails, and read back as zeros.
\<close>

theorem roundtrip_counterexample:
  "LRUBufferPool_new \<lparr>contents = [], events = []\<rparr> 3 [(8, 1)] = Inr pool_size8
   \<and> read_page (projr (write_page (projr (write_page pool_size8 1 4 (Some [1, 2, 3, 4])))
                    0 4 (Some [5, 6, 7, 8]))) 1 4 (Some [9, 9, 9, 9])
     = Inr (\<lparr>fd = 3, capacity = 1, pool_page_size = 8,
             page_table = [(1, (Page_new 1 4)\<lparr>loaded := True\<rparr>)],
             lru_list = [1], hit_count = 0, miss_count = 3,
             disk = \<lparr>contents = [5, 6, 7, 8, 0, 0, 0, 0, 1, 2, 3, 4], events = []\<rparr>,
             cerr = []\<rparr>, Some [0, 0, 0, 0])
   \<and> (case read_page (projr (write_page (projr (write_page
              (pool_cap1\<lparr>disk := \<lparr>contents = [], events = [IoOk, IoFail]\<rparr>\<rparr>)
              5 4 (Some [1, 2, 3, 4]))) 6 4 (Some [5, 6, 7, 8]))) 5 4 (Some [9, 9, 9, 9])
        of Inl e \<Rightarrow> None | Inr (st, out) \<Rightarrow> out) = Some [0, 0, 0, 0]"
  by (simp add: LRUBufferPool_new_def pool_size8_def pool_cap1_def pool_eval replicate_4)

theorem write_read_roundtrip_witness:
  "LRUBufferPool_new \<lparr>contents = [], events = [IoOk, IoShort 0, IoEINTR, IoShort 1, IoEINTR, IoOk,
                                        IoShort 2, IoEINTR]\<rparr> 3 [(4, 1)] = Inr pool_bumpy
   \<and> (\<exists>st2 st3 st4.
         write_page pool_bumpy 1 4 (Some [1, 2, 3, 4]) = Inr st2
         \<and> run st2 [WritePage 0 4 (Some [5, 6, 7, 8]), WritePage 2 4 (Some [9, 9, 9, 9])] = Inr st3
         \<and> read_page st3 1 4 (Some [0, 0, 0, 0]) = Inr (st4, Some [1, 2, 3, 4])
         \<and> map fst (page_table st3) = [2])"
proof -
  let ?w = "\<lparr>contents = [], events = [IoOk, IoShort 0, IoEINTR, IoShort 1, IoEINTR, IoOk,
                                        IoShort 2, IoEINTR]\<rparr>"
  let ?mid = "[WritePage 0 4 (Some [5, 6, 7, 8]), WritePage 2 4 (Some [9, 9, 9, 9])]"
  have new: "LRUBufferPool_new ?w 3 [(4, 1)] = Inr pool_bumpy"
    by (simp add: LRUBufferPool_new_def pool_bumpy_def)
  have nf: "IoFail \<notin> set (events ?w)" by simp
  have sz: "(4 :: nat) < 2 ^ 31" by simp
  have before: "\<forall>x \<in> set []. op_sized 4 x" by simp
  have b: "length [1, 2, 3, 4 :: byte] = 4" "length [0, 0, 0, 0 :: byte] = 4" by simp_all
  have between: "\<forall>x \<in> set ?mid. op_sized 4 x \<and> \<not> writes_page 1 x" by simp
  from write_read_roundtrip [OF new nf sz before b between] obtain st2 st3 st4
    where w: "write_page pool_bumpy 1 4 (Some [1, 2, 3, 4]) = Inr st2"
      and r: "run st2 ?mid = Inr st3"
      and rd: "read_page st3 1 4 (Some [0, 0, 0, 0]) = Inr (st4, Some [1, 2, 3, 4])"
    by auto
  have "run (projr (write_page pool_bumpy 1 4 (Some [1, 2, 3, 4]))) ?mid =
      Inr \<lparr>fd = 3, capacity = 1, pool_page_size = 4,
        page_table = [(2, (Page_new 2 4)\<lparr>data := [9, 9, 9, 9], dirty := True, loaded := True\<rparr>)],
        lru_list = [2], hit_count = 0, miss_count = 3,
        disk = \<lparr>contents = [5, 6, 7, 8, 1, 2, 3, 4], events = []\<rparr>, cerr = []\<rparr>"
    by (simp add: pool_bumpy_def pool_eval)
  with w r have m: "map fst (page_table st3) = [2]" by simp
  show ?thesis
    apply (rule conjI [OF new])
    apply (rule exI [of _ st2], rule exI [of _ st3], rule exI [of _ st4])
    apply (intro conjI)
       apply (rule w, rule r, rule rd, rule m)
    done
qed

subsection \<open>Eviction of a dirty frame\<close>

lemma FlushPage_ok_content:
  assumes F: "FlushPage st page = (True, page', st1)"
    and d: "dirty page" "loaded page" "length (data page) = page_size page"
    and sz: "pool_page_size st < 2 ^ 31"
  shows "\<forall>i < page_size page.
           byte_at (contents (disk st1)) (unat (page_id page) * pool_page_size st + i) = data page ! i"
proof -
  define off where "off = unat (page_id page) * pool_page_size st"
  have om: "off_t_mul (unat (page_id page)) (pool_page_size st) = int off"
    unfolding off_def by (rule page_offset [OF sz])
  obtain ok w' where fl: "flush_loop (disk st) (int off) (page_size page) (data page) 0 = (ok, w')"
    by (cases "flush_loop (disk st) (int off) (page_size page) (data page) 0")
  from F d fl have ok: "ok" and st1: "disk st1 = w'"
    by (auto simp: FlushPage_def flush_to_fd_def om split: if_splits)
  from flush_loop_writes [of "disk st" "int off" "page_size page" "data page" 0 w'] fl ok d(3)
  have "\<forall>i. byte_at (contents w') i =
                 (if off \<le> i \<and> i < off + page_size page
                  then data page ! (i - off) else byte_at (contents (disk st)) i)"
    by simp
  then show ?thesis
    unfolding off_def [symmetric] st1 by simp
qed

text \<open>
  Claim C2, as the code has it. When the pool is full and the walk from the back of the list
  passes only pinned frames before it meets the unpinned frame \<open>pid\<close>, that frame is flushed
  and then removed from the table and the list, whatever the flush returned. A clean victim
  leaves the file as it is. For a dirty, loaded victim the flush succeeds unless a permanent
  failure is pending, and a flush that succeeded has put the frame's bytes in the file at
  \<open>page_id * pool_page_size\<close>.
\<close>

theorem EvictIfNeeded_flushes_then_removes:
  assumes full: "capacity st \<le> length (page_table st)"
    and walk: "lru_list st = front @ pid # back"
    and skipped: "\<forall>k \<in> set back. pinned_at st k"
    and victim: "map_of (page_table st) pid = Some page" "pin_count page = 0"
  shows "\<exists>ok page' st1. FlushPage st page = (ok, page', st1)
           \<and> EvictIfNeeded st =
                Inr (st1\<lparr>page_table := AList.delete pid (page_table st), lru_list := front @ back\<rparr>)
           \<and> map_of (AList.delete pid (page_table st)) pid = None
           \<and> (\<not> dirty page \<longrightarrow> disk st1 = disk st)
           \<and> (dirty page \<and> loaded page \<and> length (data page) = page_size page
                \<and> pool_page_size st < 2 ^ 31 \<longrightarrow>
                  (IoFail \<notin> set (events (disk st)) \<longrightarrow> ok)
                \<and> (ok \<longrightarrow> (\<forall>i < page_size page.
                      byte_at (contents (disk st1)) (unat (page_id page) * pool_page_size st + i)
                        = data page ! i)))"
proof -
  obtain ok page' st1 where F: "FlushPage st page = (ok, page', st1)"
    by (metis prod_cases3)
  from walk have r: "rev (lru_list st) = rev back @ pid # rev front" by simp
  from skipped have "\<forall>k \<in> set (rev back). pinned_at st k" by simp
  from evict_walk_victim [OF this victim, of "rev front" "[]"] F r full
  have E: "EvictIfNeeded st =
      Inr (st1\<lparr>page_table := AList.delete pid (page_table st), lru_list := front @ back\<rparr>)"
    by (simp add: EvictIfNeeded_def)
  have n: "map_of (AList.delete pid (page_table st)) pid = None"
    by (simp add: delete_conv')
  have c: "\<not> dirty page \<longrightarrow> disk st1 = disk st"
    using F by (auto simp: FlushPage_def)
  have d: "dirty page \<and> loaded page \<and> length (data page) = page_size page
                \<and> pool_page_size st < 2 ^ 31 \<longrightarrow>
                  (IoFail \<notin> set (events (disk st)) \<longrightarrow> ok)
                \<and> (ok \<longrightarrow> (\<forall>i < page_size page.
                      byte_at (contents (disk st1)) (unat (page_id page) * pool_page_size st + i)
                        = data page ! i))"
  proof (intro impI conjI)
    assume a: "dirty page \<and> loaded page \<and> length (data page) = page_size page
                \<and> pool_page_size st < 2 ^ 31" and nf: "IoFail \<notin> set (events (disk st))"
    with FlushPage_dirty [of page st] F show ok by auto
  next
    assume a: "dirty page \<and> loaded page \<and> length (data page) = page_size page
                \<and> pool_page_size st < 2 ^ 31" and ok
    with FlushPage_ok_content [of st page page' st1] F
    show "\<forall>i < page_size page.
            byte_at (contents (disk st1)) (unat (page_id page) * pool_page_size st + i) = data page ! i"
      by simp
  qed
  show ?thesis
    apply (rule exI [of _ ok], rule exI [of _ page'], rule exI [of _ st1])
    apply (intro conjI)
        apply (rule F, rule E, rule n, rule c, rule d)
    done
qed

text \<open>
  Claim C2 as stated fails: the write of the dirty victim fails with \<open>EIO\<close>, the eviction is
  not aborted, and the frame is gone from the table and the list with nothing in the file.
\<close>

theorem failed_flush_counterexample:
  "write_page (pool_cap1\<lparr>disk := \<lparr>contents = [], events = [IoOk, IoFail]\<rparr>\<rparr>) 5 4 (Some [1, 2, 3, 4])
     = Inr pool_dirty_fail
   \<and> EvictIfNeeded pool_dirty_fail =
       Inr \<lparr>fd = 3, capacity = 1, pool_page_size = 4, page_table = [], lru_list = [],
            hit_count = 0, miss_count = 1, disk = \<lparr>contents = [], events = []\<rparr>, cerr = []\<rparr>"
  by (simp add: pool_cap1_def pool_dirty_fail_def pool_dirty_def pool_eval replicate_4)

theorem EvictIfNeeded_flushes_then_removes_witness:
  "capacity pool_dirty \<le> length (page_table pool_dirty)
   \<and> lru_list pool_dirty = [] @ 5 # []
   \<and> map_of (page_table pool_dirty) 5
        = Some ((Page_new 5 4)\<lparr>data := [1, 2, 3, 4], dirty := True, loaded := True\<rparr>)
   \<and> EvictIfNeeded pool_dirty =
       Inr \<lparr>fd = 3, capacity = 1, pool_page_size = 4, page_table = [], lru_list = [],
            hit_count = 0, miss_count = 1,
            disk = \<lparr>contents = replicate 20 0 @ [1, 2, 3, 4], events = []\<rparr>, cerr = []\<rparr>"
proof -
  let ?page = "(Page_new 5 4)\<lparr>data := [1, 2, 3, 4], dirty := True, loaded := True\<rparr>"
  have 1: "capacity pool_dirty \<le> length (page_table pool_dirty)"
    by (simp add: pool_dirty_def)
  have 2: "lru_list pool_dirty = [] @ 5 # []"
    by (simp add: pool_dirty_def)
  have 3: "\<forall>k \<in> set []. pinned_at pool_dirty k" by simp
  have 4: "map_of (page_table pool_dirty) 5 = Some ?page"
    by (simp add: pool_dirty_def)
  have 5: "pin_count ?page = 0" by (simp add: Page_new_def)
  have F: "FlushPage pool_dirty ?page =
      (True, ?page\<lparr>dirty := False\<rparr>,
       pool_dirty\<lparr>disk := \<lparr>contents = replicate 20 0 @ [1, 2, 3, 4], events = []\<rparr>\<rparr>)"
    by (simp add: pool_dirty_def pool_eval)
  from EvictIfNeeded_flushes_then_removes [OF 1 2 3 4 5] F
  have "EvictIfNeeded pool_dirty =
      Inr (pool_dirty\<lparr>disk := \<lparr>contents = replicate 20 0 @ [1, 2, 3, 4], events = []\<rparr>,
             page_table := AList.delete 5 (page_table pool_dirty), lru_list := [] @ []\<rparr>)"
    by auto
  then have "EvictIfNeeded pool_dirty =
       Inr \<lparr>fd = 3, capacity = 1, pool_page_size = 4, page_table = [], lru_list = [],
            hit_count = 0, miss_count = 1,
            disk = \<lparr>contents = replicate 20 0 @ [1, 2, 3, 4], events = []\<rparr>, cerr = []\<rparr>"
    by (simp add: pool_dirty_def)
  with 1 2 4 show ?thesis by simp
qed

end
